theory Spec2Isabelle
  imports Complex_Main "HOL-Library.Multiset"
begin

section \<open>The array backend\<close>

text \<open>
  The terms of \<^verbatim>\<open>qibo/core/terms.py\<close> compute with the arrays of the numeric backend
  \<^verbatim>\<open>K\<close> (numpy). An array is its shape and its entries in row-major (C) order, as numpy
  stores it; a scalar is the array of shape \<open>[]\<close>. Entries are exact complex numbers:
  rounding of floating point numbers is outside this development.
\<close>

record ndarray =
  shape :: "nat list"
  data :: "complex list"

text \<open>
  A Python value that can reach a \<^verbatim>\<open>matrix\<close> argument: \<^verbatim>\<open>None\<close>, a number (an instance
  of \<^verbatim>\<open>K.qnp.numeric_types\<close>), an array (an instance of \<^verbatim>\<open>K.qnp.tensor_types\<close>), or an
  object of another type, of which only the type's name is kept.
\<close>

datatype pyval = PyNone | Num complex | Tensor ndarray | PyObj string

datatype error = TypeError | ValueError | IndexError | AssertionError | AttributeError

definition and_then :: "error + 'a \<Rightarrow> ('a \<Rightarrow> error + 'b) \<Rightarrow> error + 'b" where
  "and_then r f = (case r of Inl e \<Rightarrow> Inl e | Inr x \<Rightarrow> f x)"

fun is_numeric :: "pyval \<Rightarrow> bool" where
  "is_numeric (Num c) = True"
| "is_numeric v = False"

fun is_tensor :: "pyval \<Rightarrow> bool" where
  "is_tensor (Tensor a) = True"
| "is_tensor v = False"

text \<open>Row-major position of a multi-index, and the multi-index of a position.\<close>

fun ravel :: "nat list \<Rightarrow> nat list \<Rightarrow> nat" where
  "ravel (d # ds) (i # js) = i * prod_list ds + ravel ds js"
| "ravel ds js = 0"

fun unravel :: "nat list \<Rightarrow> nat \<Rightarrow> nat list" where
  "unravel [] n = []"
| "unravel (d # ds) n = (n div prod_list ds) # unravel ds (n mod prod_list ds)"

text \<open>\<^verbatim>\<open>list.index\<close>: the first position of an element.\<close>

fun index_of :: "'a list \<Rightarrow> 'a \<Rightarrow> nat" where
  "index_of [] x = 0"
| "index_of (y # ys) x = (if y = x then 0 else Suc (index_of ys x))"

definition eye :: "nat \<Rightarrow> ndarray" where
  "eye n = \<lparr>shape = [n, n],
            data = concat (map (\<lambda>i. map (\<lambda>j. if i = j then 1 else 0) [0..<n]) [0..<n])\<rparr>"

definition pad_shape :: "nat \<Rightarrow> nat list \<Rightarrow> nat list" where
  "pad_shape n s = replicate (n - length s) 1 @ s"

text \<open>
  \<^verbatim>\<open>np.kron\<close>: the shorter shape is padded with ones on the left, the shapes are
  multiplied axis by axis, and the entry at \<open>idx\<close> is the product of the entry of \<open>a\<close> at
  \<open>idx div shape b\<close> and the entry of \<open>b\<close> at \<open>idx mod shape b\<close>.
\<close>

definition nd_kron :: "ndarray \<Rightarrow> ndarray \<Rightarrow> ndarray" where
  "nd_kron a b =
     (let nd = max (length (shape a)) (length (shape b));
          sa = pad_shape nd (shape a);
          sb = pad_shape nd (shape b);
          rs = map2 (*) sa sb
      in \<lparr>shape = rs,
          data = map (\<lambda>f. let idx = unravel rs f
                          in data a ! ravel sa (map2 (div) idx sb)
                             * data b ! ravel sb (map2 (mod) idx sb))
                     [0..<prod_list rs]\<rparr>)"

fun as_array :: "pyval \<Rightarrow> error + ndarray" where
  "as_array (Num c) = Inr \<lparr>shape = [], data = [c]\<rparr>"
| "as_array (Tensor a) = Inr a"
| "as_array v = Inl TypeError"

definition np_kron :: "pyval \<Rightarrow> pyval \<Rightarrow> error + ndarray" where
  "np_kron x y =
     and_then (as_array x) (\<lambda>a. and_then (as_array y) (\<lambda>b. Inr (nd_kron a b)))"

text \<open>\<^verbatim>\<open>np.reshape\<close> keeps the entries and their order; the sizes must agree.\<close>

definition np_reshape :: "ndarray \<Rightarrow> nat list \<Rightarrow> error + ndarray" where
  "np_reshape a s =
     (if prod_list s = length (data a) then Inr \<lparr>shape = s, data = data a\<rparr>
      else Inl ValueError)"

text \<open>
  \<^verbatim>\<open>np.transpose(a, axes)\<close>: axis \<open>t\<close> of the result is axis \<open>axes ! t\<close> of \<open>a\<close>, so the
  entry of the result at \<open>i\<close> is the entry of \<open>a\<close> at the index \<open>j\<close> with
  \<open>j ! (axes ! t) = i ! t\<close>. \<open>axes\<close> must be a permutation of the axes of \<open>a\<close>.
\<close>

definition np_transpose :: "ndarray \<Rightarrow> nat list \<Rightarrow> error + ndarray" where
  "np_transpose a axes =
     (if length axes = length (shape a) \<and> distinct axes
         \<and> list_all (\<lambda>x. x < length (shape a)) axes
      then
        (let s = map (\<lambda>t. shape a ! t) axes
         in Inr \<lparr>shape = s,
                data = map (\<lambda>f. let i = unravel s f
                                in data a ! ravel (shape a)
                                     (map (\<lambda>t. i ! index_of axes t) [0..<length axes]))
                           [0..<prod_list s]\<rparr>)
      else Inl ValueError)"

text \<open>
  \<^verbatim>\<open>+\<close> on arrays, with numpy's broadcasting: the shapes are aligned on the right, two
  extents agree when they are equal or one of them is 1, and an axis of extent 1 is
  read at position 0.
\<close>

definition broadcast_ok :: "nat list \<Rightarrow> nat list \<Rightarrow> bool" where
  "broadcast_ok sa sb = list_all2 (\<lambda>d e. d = e \<or> d = 1 \<or> e = 1) sa sb"

definition broadcast_index :: "nat list \<Rightarrow> nat list \<Rightarrow> nat list" where
  "broadcast_index s idx = map2 (\<lambda>d i. if d = 1 then 0 else i) s idx"

definition nd_add :: "ndarray \<Rightarrow> ndarray \<Rightarrow> error + ndarray" where
  "nd_add a b =
     (let nd = max (length (shape a)) (length (shape b));
          sa = pad_shape nd (shape a);
          sb = pad_shape nd (shape b);
          rs = map2 (\<lambda>d e. if d = 1 then e else d) sa sb
      in if broadcast_ok sa sb
         then Inr \<lparr>shape = rs,
                  data = map (\<lambda>f. let idx = unravel rs f
                                  in data a ! ravel sa (broadcast_index sa idx)
                                     + data b ! ravel sb (broadcast_index sb idx))
                             [0..<prod_list rs]\<rparr>
         else Inl ValueError)"

fun np_add :: "pyval \<Rightarrow> pyval \<Rightarrow> error + pyval" where
  "np_add (Num c) (Num d) = Inr (Num (c + d))"
| "np_add x y =
     and_then (as_array x) (\<lambda>a. and_then (as_array y) (\<lambda>b.
       and_then (nd_add a b) (\<lambda>r. Inr (Tensor r))))"

text \<open>
  \<^verbatim>\<open>@\<close> on arrays of one or two axes, as numpy defines it: two matrices give their
  product, a vector on the left is a row, a vector on the right is a column, two
  vectors give their inner product, and the extents that meet must agree. An operand
  without axes is refused. Arrays of three or more axes, which numpy multiplies as
  stacks of matrices, do not occur among the matrices of a term and are outside the
  model, which answers them like an operand without axes.
\<close>

definition nd_matmul :: "ndarray \<Rightarrow> ndarray \<Rightarrow> error + ndarray" where
  "nd_matmul a b =
     (case (shape a, shape b) of
        ([n, k], [k', p]) \<Rightarrow>
          if k = k'
          then Inr \<lparr>shape = [n, p],
                   data = concat (map (\<lambda>i. map (\<lambda>j.
                            (\<Sum>l\<leftarrow>[0..<k]. data a ! (i * k + l) * data b ! (l * p + j)))
                            [0..<p]) [0..<n])\<rparr>
          else Inl ValueError
      | ([k], [k', p]) \<Rightarrow>
          if k = k'
          then Inr \<lparr>shape = [p],
                   data = map (\<lambda>j. (\<Sum>l\<leftarrow>[0..<k]. data a ! l * data b ! (l * p + j)))
                              [0..<p]\<rparr>
          else Inl ValueError
      | ([n, k], [k']) \<Rightarrow>
          if k = k'
          then Inr \<lparr>shape = [n],
                   data = map (\<lambda>i. (\<Sum>l\<leftarrow>[0..<k]. data a ! (i * k + l) * data b ! l))
                              [0..<n]\<rparr>
          else Inl ValueError
      | ([k], [k']) \<Rightarrow>
          if k = k'
          then Inr \<lparr>shape = [], data = [\<Sum>l\<leftarrow>[0..<k]. data a ! l * data b ! l]\<rparr>
          else Inl ValueError
      | _ \<Rightarrow> Inl ValueError)"

text \<open>\<^verbatim>\<open>x * matrix\<close> for a number \<open>x\<close>.\<close>

fun np_scale :: "complex \<Rightarrow> pyval \<Rightarrow> error + pyval" where
  "np_scale x (Num c) = Inr (Num (x * c))"
| "np_scale x (Tensor a) = Inr (Tensor (a\<lparr>data := map (\<lambda>e. x * e) (data a)\<rparr>))"
| "np_scale x v = Inl TypeError"

text \<open>
  \<^verbatim>\<open>complex(v)\<close>: a number converts to itself, an array converts when it has exactly
  one entry.
\<close>

fun py_complex :: "pyval \<Rightarrow> error + complex" where
  "py_complex (Num c) = Inr c"
| "py_complex (Tensor a) = (case data a of [c] \<Rightarrow> Inr c | _ \<Rightarrow> Inl TypeError)"
| "py_complex v = Inl TypeError"

section \<open>Terms\<close>

text \<open>
  A symbol of \<^verbatim>\<open>qibo.symbols\<close>: its target qubit, its matrix and its name. The module
  is not among the sources; a symbol is modelled by the three attributes that
  \<^verbatim>\<open>from_factors\<close> reads.
\<close>

datatype symbol = Symbol (target_qubit: int) (symbol_matrix: pyval) (name: string)

datatype gate = Unitary pyval "int list"

record symbolic_part =
  coefficient :: complex
  factors :: "symbol list"
  matrix_map :: "(int \<times> ndarray list) list"

text \<open>
  An object of class \<^verbatim>\<open>HamiltonianTerm\<close> or of its subclass \<^verbatim>\<open>SymbolicTerm\<close>. The
  attributes \<^verbatim>\<open>target_qubits\<close>, \<^verbatim>\<open>_matrix\<close>, \<^verbatim>\<open>_gate\<close> and \<^verbatim>\<open>hamiltonian\<close> belong to
  both classes; \<open>symbolic\<close> is \<open>None\<close> for the base class and holds the attributes of
  the subclass otherwise. \<^verbatim>\<open>hamiltonian\<close> refers to the owning object, here a number.
  The dictionary \<^verbatim>\<open>matrix_map\<close> is a list of pairs in insertion order.
\<close>

record hamiltonian_term =
  target_qubits :: "int list"
  priv_matrix :: pyval
  priv_gate :: "gate option"
  hamiltonian :: "nat option"
  symbolic :: "symbolic_part option"

definition HamiltonianTerm :: "pyval \<Rightarrow> int list \<Rightarrow> error + hamiltonian_term" where
  "HamiltonianTerm matrix q =
     (if \<not> (matrix = PyNone \<or> is_numeric matrix \<or> is_tensor matrix) then Inl TypeError
      else Inr \<lparr>target_qubits = q, priv_matrix = matrix, priv_gate = None,
                hamiltonian = None, symbolic = None\<rparr>)"

definition SymbolicTerm ::
  "complex \<Rightarrow> symbol list \<Rightarrow> (int \<times> ndarray list) list \<Rightarrow> hamiltonian_term" where
  "SymbolicTerm c fs mm =
     \<lparr>target_qubits = sort (map fst mm), priv_matrix = PyNone, priv_gate = None,
      hamiltonian = None,
      symbolic = Some \<lparr>coefficient = c, factors = fs, matrix_map = mm\<rparr>\<rparr>"

definition len :: "hamiltonian_term \<Rightarrow> nat" where
  "len t = length (target_qubits t)"

subsection \<open>Parsing the factors of a product\<close>

text \<open>
  What \<^verbatim>\<open>factors.as_ordered_factors()\<close> of the symbolic engine yields: each factor is
  an atom or a power of an atom. An atom is a symbol of \<^verbatim>\<open>qibo.symbols\<close>, a plain
  \<^verbatim>\<open>sympy.Symbol\<close> (which has a name only), the imaginary unit, or something else.
  The expression \<^verbatim>\<open>1\<close> is \<open>One\<close>.
\<close>

datatype atom = Sym symbol | PlainSym string | ImaginaryUnit | OtherAtom string

datatype exponent = Integer int | OtherExponent

datatype factor = Atom atom | Pow atom exponent

datatype expr = One | Product "factor list"

fun is_sympy_symbol :: "atom \<Rightarrow> bool" where
  "is_sympy_symbol (Sym s) = True"
| "is_sympy_symbol (PlainSym n) = True"
| "is_sympy_symbol a = False"

text \<open>
  What a dictionary keyed by symbols compares: the class of the symbol (a symbol of
  \<^verbatim>\<open>qibo.symbols\<close> or a plain \<^verbatim>\<open>sympy.Symbol\<close>) and its name. The matrix and the
  qubit of a symbol take no part in the comparison; two symbols of one class and one
  name are taken to carry the same assumptions. Other atoms are not symbols and are
  never keys.
\<close>

fun atom_key :: "atom \<Rightarrow> (bool \<times> string) option" where
  "atom_key (Sym s) = Some (True, name s)"
| "atom_key (PlainSym n) = Some (False, n)"
| "atom_key a = None"

text \<open>Lines 114 to 120: the base and the exponent of a factor.\<close>

fun split_pow :: "factor \<Rightarrow> error + (atom \<times> int)" where
  "split_pow (Pow a (Integer p)) =
     (if is_sympy_symbol a then Inr (a, p) else Inl AssertionError)"
| "split_pow (Pow a OtherExponent) = Inl AssertionError"
| "split_pow (Atom a) = Inr (a, 1)"

text \<open>
  Lines 122 to 125: a symbol that is a key of \<^verbatim>\<open>symbol_map\<close> is replaced by
  \<^verbatim>\<open>Symbol(q, matrix, name=factor.name)\<close> for the pair the map holds. The constructor
  of \<^verbatim>\<open>Symbol\<close> is not among the sources; the model keeps the name it is given.
\<close>

definition substitute :: "(bool \<times> string \<rightharpoonup> int \<times> pyval) option \<Rightarrow> atom \<Rightarrow> atom" where
  "substitute symbol_map a =
     (case symbol_map of
        None \<Rightarrow> a
      | Some sm \<Rightarrow>
          (case atom_key a of
             None \<Rightarrow> a
           | Some key \<Rightarrow>
               (case sm key of None \<Rightarrow> a | Some (q, m) \<Rightarrow> Sym (Symbol q m (snd key)))))"

text \<open>Lines 131 to 134: extend the list stored under \<open>q\<close>, or store a new one.\<close>

fun matrix_map_extend ::
  "(int \<times> ndarray list) list \<Rightarrow> int \<Rightarrow> ndarray list \<Rightarrow> (int \<times> ndarray list) list" where
  "matrix_map_extend [] q ms = [(q, ms)]"
| "matrix_map_extend ((k, v) # kvs) q ms =
     (if k = q then (k, v @ ms) # kvs else (k, v) # matrix_map_extend kvs q ms)"

text \<open>
  The loop of lines 113 to 140 over the remaining factors, with the three variables
  it updates: \<^verbatim>\<open>coefficient\<close>, \<^verbatim>\<open>_factors\<close> and \<^verbatim>\<open>_matrix_map\<close>. A negative exponent
  repeats a list zero times, as \<^verbatim>\<open>pow * [factor]\<close> does.
\<close>

fun parse_factors ::
  "(bool \<times> string \<rightharpoonup> int \<times> pyval) option \<Rightarrow> factor list \<Rightarrow>
   complex \<Rightarrow> symbol list \<Rightarrow> (int \<times> ndarray list) list \<Rightarrow>
   error + (complex \<times> symbol list \<times> (int \<times> ndarray list) list)" where
  "parse_factors sm [] c fs mm = Inr (c, fs, mm)"
| "parse_factors sm (f # rest) c fs mm =
     and_then (split_pow f) (\<lambda>(a, p).
       (case substitute sm a of
          Sym s \<Rightarrow>
            (case symbol_matrix s of
               Tensor m \<Rightarrow>
                 parse_factors sm rest c (fs @ replicate (nat p) s)
                   (matrix_map_extend mm (target_qubit s) (replicate (nat p) m))
             | Num x \<Rightarrow> parse_factors sm rest (c * x) fs mm
             | _ \<Rightarrow> Inl TypeError)
        | PlainSym n \<Rightarrow> Inl AttributeError
        | ImaginaryUnit \<Rightarrow> parse_factors sm rest (c * \<i>) fs mm
        | OtherAtom n \<Rightarrow> Inl TypeError))"

definition from_factors ::
  "complex \<Rightarrow> expr \<Rightarrow> (bool \<times> string \<rightharpoonup> int \<times> pyval) option \<Rightarrow> error + hamiltonian_term" where
  "from_factors c e symbol_map =
     (case e of
        One \<Rightarrow> Inr (SymbolicTerm c [] [])
      | Product fl \<Rightarrow>
          and_then (parse_factors symbol_map fl c [] [])
            (\<lambda>(c', fs, mm). Inr (SymbolicTerm c' fs mm)))"

subsection \<open>The matrix of a term\<close>

text \<open>
  \<^verbatim>\<open>matrices_product\<close> (lines 154 to 160): the only matrix of a list of one, the
  product from the left otherwise; reading \<^verbatim>\<open>matrices[0]\<close> of an empty list fails.
\<close>

fun matmul_loop :: "ndarray \<Rightarrow> ndarray list \<Rightarrow> error + ndarray" where
  "matmul_loop matrix [] = Inr matrix"
| "matmul_loop matrix (m # ms) = and_then (nd_matmul matrix m) (\<lambda>r. matmul_loop r ms)"

fun matrices_product :: "ndarray list \<Rightarrow> error + ndarray" where
  "matrices_product [] = Inl IndexError"
| "matrices_product [m] = Inr m"
| "matrices_product (m # ms) = matmul_loop m ms"

text \<open>
  The loop of lines 163 to 165 over the target qubits: \<open>acc\<close> is \<^verbatim>\<open>self._matrix\<close>.
  \<^verbatim>\<open>matrix_map.get(q)\<close> of a missing key is \<^verbatim>\<open>None\<close>, whose length is a type error.
\<close>

fun kron_loop ::
  "(int \<times> ndarray list) list \<Rightarrow> pyval \<Rightarrow> int list \<Rightarrow> error + pyval" where
  "kron_loop mm acc [] = Inr acc"
| "kron_loop mm acc (q # qs) =
     (case map_of mm q of
        None \<Rightarrow> Inl TypeError
      | Some ms \<Rightarrow>
          and_then (matrices_product ms) (\<lambda>matrix.
            and_then (np_kron acc (Tensor matrix)) (\<lambda>r. kron_loop mm (Tensor r) qs)))"

text \<open>
  The property \<^verbatim>\<open>matrix\<close>: the value read and the object after the read. The base
  class returns \<^verbatim>\<open>_matrix\<close>; the subclass computes it when \<^verbatim>\<open>_matrix\<close> is \<^verbatim>\<open>None\<close> and
  stores it.
\<close>

definition matrix :: "hamiltonian_term \<Rightarrow> error + (pyval \<times> hamiltonian_term)" where
  "matrix t =
     (case symbolic t of
        None \<Rightarrow> Inr (priv_matrix t, t)
      | Some s \<Rightarrow>
          if priv_matrix t = PyNone
          then and_then (kron_loop (matrix_map s) (Num (coefficient s)) (target_qubits t))
                 (\<lambda>m. Inr (m, t\<lparr>priv_matrix := m\<rparr>))
          else Inr (priv_matrix t, t))"

definition matrix_value :: "hamiltonian_term \<Rightarrow> error + pyval" where
  "matrix_value t = and_then (matrix t) (\<lambda>(m, t'). Inr m)"

subsection \<open>Scalar multiplication\<close>

text \<open>
  \<^verbatim>\<open>__mul__\<close> of the base class (line 60) builds a new term from \<^verbatim>\<open>x * self.matrix\<close>;
  \<^verbatim>\<open>__mul__\<close> of the subclass (lines 169 to 173) builds a new symbolic term from the
  attributes of \<^verbatim>\<open>self\<close>, copies \<^verbatim>\<open>_matrix\<close> and \<^verbatim>\<open>_gate\<close> and multiplies the
  coefficient. \<^verbatim>\<open>__rmul__\<close> calls \<^verbatim>\<open>__mul__\<close>. The receiver is not assigned to.
\<close>

definition mul :: "hamiltonian_term \<Rightarrow> complex \<Rightarrow> error + hamiltonian_term" where
  "mul t x =
     (case symbolic t of
        None \<Rightarrow> and_then (np_scale x (priv_matrix t)) (\<lambda>m. HamiltonianTerm m (target_qubits t))
      | Some s \<Rightarrow>
          (let new = SymbolicTerm (coefficient s) (factors s) (matrix_map s)
           in Inr (new\<lparr>priv_matrix := priv_matrix t, priv_gate := priv_gate t,
                       symbolic := map_option (\<lambda>s'. s'\<lparr>coefficient := coefficient s' * x\<rparr>)
                                      (symbolic new)\<rparr>)))"

definition rmul :: "complex \<Rightarrow> hamiltonian_term \<Rightarrow> error + hamiltonian_term" where
  "rmul x t = mul t x"

subsection \<open>Merging\<close>

text \<open>The loop of lines 43 to 50: \<open>i\<close> is the next unused slot.\<close>

fun merge_order :: "int list \<Rightarrow> int list \<Rightarrow> nat \<Rightarrow> nat list" where
  "merge_order [] tq i = []"
| "merge_order (qubit # qs) tq i =
     (if qubit \<in> set tq then index_of tq qubit # merge_order qs tq i
      else i # merge_order qs tq (i + 1))"

text \<open>
  \<^verbatim>\<open>self.__class__(m, *self.target_qubits)\<close>. For the subclass the first argument is
  the coefficient, converted by \<^verbatim>\<open>complex\<close>, and the qubits would be taken for
  \<^verbatim>\<open>factors\<close> and \<^verbatim>\<open>matrix_map\<close>; with at least one qubit the sum computed by \<^verbatim>\<open>merge\<close>
  has at least four entries, and the call ends in a type error.
\<close>

definition construct_like ::
  "hamiltonian_term \<Rightarrow> pyval \<Rightarrow> int list \<Rightarrow> error + hamiltonian_term" where
  "construct_like self m q =
     (case symbolic self of
        None \<Rightarrow> HamiltonianTerm m q
      | Some s \<Rightarrow>
          if q = [] then and_then (py_complex m) (\<lambda>c. Inr (SymbolicTerm c [] []))
          else Inl TypeError)"

text \<open>
  \<^verbatim>\<open>merge\<close> (lines 41 to 54). With more qubits in \<^verbatim>\<open>term\<close> than in \<^verbatim>\<open>self\<close> the
  exponent of line 41 is negative, the power is a float and \<^verbatim>\<open>K.eye\<close> refuses it. The
  two reads of the property \<^verbatim>\<open>matrix\<close> may store the matrix in the object read; the
  value merged does not depend on that, and \<open>merge\<close> returns the new term only.
\<close>

definition merge :: "hamiltonian_term \<Rightarrow> hamiltonian_term \<Rightarrow> error + hamiltonian_term" where
  "merge self term' =
     and_then (matrix_value term') (\<lambda>tm.
       if len self < len term' then Inl TypeError
       else
         and_then (np_kron tm (Tensor (eye (2 ^ (len self - len term'))))) (\<lambda>m1.
         and_then (np_reshape m1 (replicate (2 * len self) 2)) (\<lambda>m2.
           (let order = merge_order (target_qubits self) (target_qubits term') (len term');
                order2 = order @ map (\<lambda>x. x + length order) order
            in and_then (np_transpose m2 order2) (\<lambda>m3.
               and_then (np_reshape m3 (replicate 2 (2 ^ len self))) (\<lambda>m4.
               and_then (matrix_value self) (\<lambda>sm.
               and_then (np_add sm (Tensor m4)) (\<lambda>total.
                 construct_like self total (target_qubits self)))))))))"

section \<open>Groups of terms\<close>

text \<open>
  A \<^verbatim>\<open>TermGroup\<close> is a list (its members) with two attributes: the set
  \<^verbatim>\<open>target_qubits\<close> and the stored merged term \<^verbatim>\<open>_term\<close>.
\<close>

record term_group =
  members :: "hamiltonian_term list"
  group_qubits :: "int set"
  priv_term :: "hamiltonian_term option"

definition TermGroup :: "hamiltonian_term \<Rightarrow> term_group" where
  "TermGroup t = \<lparr>members = [t], group_qubits = set (target_qubits t), priv_term = None\<rparr>"

definition append :: "term_group \<Rightarrow> hamiltonian_term \<Rightarrow> term_group" where
  "append g t =
     g\<lparr>members := members g @ [t],
       group_qubits := group_qubits g \<union> set (target_qubits t),
       priv_term := None\<rparr>"

definition can_append :: "term_group \<Rightarrow> hamiltonian_term \<Rightarrow> bool" where
  "can_append g t = (set (target_qubits t) \<subseteq> group_qubits g)"

text \<open>
  Lines 202 to 207: the dictionary \<^verbatim>\<open>orders\<close> from the number of qubits to the terms
  of that size, in the order they arrive.
\<close>

fun add_order ::
  "(nat \<times> hamiltonian_term list) list \<Rightarrow> hamiltonian_term \<Rightarrow> (nat \<times> hamiltonian_term list) list"
  where
  "add_order [] t = [(len t, [t])]"
| "add_order ((k, v) # kvs) t =
     (if k = len t then (k, v @ [t]) # kvs else (k, v) # add_order kvs t)"

definition bucket :: "hamiltonian_term list \<Rightarrow> (nat \<times> hamiltonian_term list) list" where
  "bucket ts = foldl add_order [] ts"

text \<open>
  Lines 212 to 219: the scan of the groups in creation order. The first group that
  can take the child takes it; when the scan ends with the flag still set, a new
  group is put at the end.
\<close>

fun place :: "hamiltonian_term \<Rightarrow> term_group list \<Rightarrow> term_group list" where
  "place child [] = [TermGroup child]"
| "place child (g # gs) =
     (if can_append g child then append g child # gs else g # place child gs)"

text \<open>
  Lines 210 and 211: the keys in descending order, and under each key its terms. The
  keys come from the dictionary itself, so every lookup finds its list.
\<close>

definition schedule :: "hamiltonian_term list \<Rightarrow> hamiltonian_term list" where
  "schedule ts =
     (let orders = bucket ts
      in concat (map (\<lambda>order. case map_of orders order of None \<Rightarrow> [] | Some l \<Rightarrow> l)
                     (rev (sort (map fst orders)))))"

definition from_terms :: "hamiltonian_term list \<Rightarrow> term_group list" where
  "from_terms ts = foldl (\<lambda>groups child. place child groups) [] (schedule ts)"

text \<open>
  \<^verbatim>\<open>to_term\<close> (lines 229 to 234). \<^verbatim>\<open>coefficients\<close> is keyed by the owning object of a
  term, which may be \<^verbatim>\<open>None\<close>. Reading member 0 of an empty list fails.
\<close>

definition rescale ::
  "(nat option \<rightharpoonup> complex) \<Rightarrow> hamiltonian_term \<Rightarrow> error + hamiltonian_term" where
  "rescale coefficients t =
     (case coefficients (hamiltonian t) of None \<Rightarrow> Inr t | Some c \<Rightarrow> mul t c)"

fun merge_loop ::
  "(nat option \<rightharpoonup> complex) \<Rightarrow> hamiltonian_term \<Rightarrow> hamiltonian_term list \<Rightarrow>
   error + hamiltonian_term" where
  "merge_loop coefficients merged [] = Inr merged"
| "merge_loop coefficients merged (t # ts) =
     and_then (rescale coefficients t) (\<lambda>a.
       and_then (merge merged a) (\<lambda>merged'. merge_loop coefficients merged' ts))"

definition to_term ::
  "(nat option \<rightharpoonup> complex) \<Rightarrow> term_group \<Rightarrow> error + hamiltonian_term" where
  "to_term coefficients g =
     (case members g of
        [] \<Rightarrow> Inl IndexError
      | t0 # rest \<Rightarrow>
          and_then (rescale coefficients t0) (\<lambda>merged. merge_loop coefficients merged rest))"

text \<open>The property \<^verbatim>\<open>term\<close> (lines 223 to 226): the value read and the group after.\<close>

definition term_property :: "term_group \<Rightarrow> error + (hamiltonian_term \<times> term_group)" where
  "term_property g =
     (case priv_term g of
        None \<Rightarrow> and_then (to_term Map.empty g) (\<lambda>t. Inr (t, g\<lparr>priv_term := Some t\<rparr>))
      | Some t \<Rightarrow> Inr (t, g))"

text \<open>
  The calls of \<^verbatim>\<open>merge\<close> that \<^verbatim>\<open>to_term\<close> makes, in order, each as the pair of its
  receiver and its argument: the same loop as \<open>merge_loop\<close>, recording each call
  before it is made. The run ends at the first error.
\<close>

fun merge_calls ::
  "(nat option \<rightharpoonup> complex) \<Rightarrow> hamiltonian_term \<Rightarrow> hamiltonian_term list \<Rightarrow>
   (hamiltonian_term \<times> hamiltonian_term) list" where
  "merge_calls coefficients merged [] = []"
| "merge_calls coefficients merged (t # ts) =
     (case rescale coefficients t of
        Inl e \<Rightarrow> []
      | Inr a \<Rightarrow>
          (merged, a) #
          (case merge merged a of
             Inl e \<Rightarrow> []
           | Inr merged' \<Rightarrow> merge_calls coefficients merged' ts))"

definition to_term_calls ::
  "(nat option \<rightharpoonup> complex) \<Rightarrow> term_group \<Rightarrow> (hamiltonian_term \<times> hamiltonian_term) list" where
  "to_term_calls coefficients g =
     (case members g of
        [] \<Rightarrow> []
      | t0 # rest \<Rightarrow>
          (case rescale coefficients t0 of
             Inl e \<Rightarrow> []
           | Inr merged \<Rightarrow> merge_calls coefficients merged rest))"

section \<open>Invariants and examples\<close>

text \<open>
  What the constructor of a symbolic term establishes (line 104): the target qubits
  are the sorted keys of \<^verbatim>\<open>matrix_map\<close>. A term of the base class has no such
  constraint.
\<close>

definition term_invariant :: "hamiltonian_term \<Rightarrow> bool" where
  "term_invariant t =
     (case symbolic t of
        None \<Rightarrow> True
      | Some s \<Rightarrow> target_qubits t = sort (map fst (matrix_map s)))"

text \<open>
  A group whose qubit set is the support of its first member and contains the support
  of every later member.
\<close>

definition seeded :: "term_group \<Rightarrow> bool" where
  "seeded g =
     (case members g of
        [] \<Rightarrow> False
      | t0 # rest \<Rightarrow>
          group_qubits g = set (target_qubits t0)
          \<and> list_all (\<lambda>t. set (target_qubits t) \<subseteq> set (target_qubits t0)) rest)"

text \<open>The Pauli matrices \<open>X\<close> and \<open>Z\<close>, and two terms of the base class built from them.\<close>

definition pauli_X :: ndarray where
  "pauli_X = \<lparr>shape = [2, 2], data = [0, 1, 1, 0]\<rparr>"

definition pauli_Z :: ndarray where
  "pauli_Z = \<lparr>shape = [2, 2], data = [1, 0, 0, - 1]\<rparr>"

definition term_X0 :: hamiltonian_term where
  "term_X0 = \<lparr>target_qubits = [0], priv_matrix = Tensor pauli_X, priv_gate = None,
              hamiltonian = None, symbolic = None\<rparr>"

definition term_ZZ01 :: hamiltonian_term where
  "term_ZZ01 = \<lparr>target_qubits = [0, 1], priv_matrix = Tensor (nd_kron pauli_Z pauli_Z),
                priv_gate = None, hamiltonian = None, symbolic = None\<rparr>"

section \<open>The kron chain and the recorded matrices, as the specification words them\<close>

text \<open>
  The product of two matrices where the extents fit, the ordered product of a list of
  matrices from the left, and the chain of Kronecker products whose leftmost factor is
  the coefficient.
\<close>

definition mat_mul :: "ndarray \<Rightarrow> ndarray \<Rightarrow> ndarray" where
  "mat_mul a b =
     (let n = shape a ! 0; k = shape a ! 1; p = shape b ! 1
      in \<lparr>shape = [n, p],
          data = concat (map (\<lambda>i. map (\<lambda>j.
                   (\<Sum>l\<leftarrow>[0..<k]. data a ! (i * k + l) * data b ! (l * p + j)))
                   [0..<p]) [0..<n])\<rparr>)"

definition ordered_product :: "ndarray list \<Rightarrow> ndarray" where
  "ordered_product ms = foldl mat_mul (hd ms) (tl ms)"

definition kron_chain :: "complex \<Rightarrow> ndarray list \<Rightarrow> ndarray" where
  "kron_chain c ps = foldl nd_kron \<lparr>shape = [], data = [c]\<rparr> ps"

text \<open>Symbols \<open>X(q)\<close> and \<open>Z(q)\<close> of \<^verbatim>\<open>qibo.symbols\<close>.\<close>

definition sym_X :: "int \<Rightarrow> symbol" where
  "sym_X q = Symbol q (Tensor pauli_X) ''X''"

definition sym_Z :: "int \<Rightarrow> symbol" where
  "sym_Z q = Symbol q (Tensor pauli_Z) ''Z''"

text \<open>
  The matrices that one factor of a product contributes to qubit \<open>q\<close>, in textual
  order: a symbol on \<open>q\<close> contributes its matrix once, a power of it as often as the
  exponent says. A qubit operator is such a symbol with a matrix of two rows and two
  columns, or a positive integer power of one.
\<close>

fun factor_matrices :: "int \<Rightarrow> factor \<Rightarrow> ndarray list" where
  "factor_matrices q (Atom (Sym (Symbol q' (Tensor m) n))) = (if q' = q then [m] else [])"
| "factor_matrices q (Pow (Sym (Symbol q' (Tensor m) n)) (Integer p)) =
     (if q' = q then replicate (nat p) m else [])"
| "factor_matrices q f = []"

fun qubit_operator :: "factor \<Rightarrow> bool" where
  "qubit_operator (Atom (Sym (Symbol q (Tensor m) n))) = (shape m = [2, 2])"
| "qubit_operator (Pow (Sym (Symbol q (Tensor m) n)) (Integer p)) = (shape m = [2, 2] \<and> 0 < p)"
| "qubit_operator f = False"

text \<open>
  \<open>recorded mm q\<close> is \<^verbatim>\<open>matrix_map[q]\<close>, empty when the key is missing; \<open>square_lists\<close>
  says that every list of the dictionary is non-empty and holds matrices of two rows
  and two columns.
\<close>

definition recorded :: "(int \<times> ndarray list) list \<Rightarrow> int \<Rightarrow> ndarray list" where
  "recorded mm q = (case map_of mm q of None \<Rightarrow> [] | Some ms \<Rightarrow> ms)"

definition square_lists :: "(int \<times> ndarray list) list \<Rightarrow> bool" where
  "square_lists mm = list_all (\<lambda>(q, ms). ms \<noteq> [] \<and> list_all (\<lambda>x. shape x = [2, 2]) ms) mm"

section \<open>The embedding of an operator, as the specification words it\<close>

text \<open>
  A matrix over \<open>k\<close> qubits has \<open>2 ^ k\<close> rows and columns; the row \<open>r\<close> is read as \<open>k\<close>
  bits, the most significant first, and bit \<open>t\<close> belongs to qubit \<open>qa ! t\<close>.
  \<open>sub_index qa qb r\<close> is the number whose bits are the bits of \<open>r\<close> at the qubits
  \<open>qb\<close>, in the order of \<open>qb\<close>; \<open>off_support_equal qa qb r c\<close> says that \<open>r\<close> and \<open>c\<close>
  agree at every qubit of \<open>qa\<close> outside \<open>qb\<close>. The embedding of an operator \<open>b\<close> on the
  qubits \<open>qb\<close> into the space of the qubits \<open>qa\<close> is \<open>b\<close> on the qubits of \<open>qb\<close> and the
  identity on the others: its entry at \<open>(r, c)\<close> is the entry of \<open>b\<close> at the sub-indices
  of \<open>r\<close> and \<open>c\<close> when they agree outside \<open>qb\<close>, and 0 otherwise.
\<close>

definition bit_at :: "nat \<Rightarrow> nat \<Rightarrow> nat \<Rightarrow> nat" where
  "bit_at k r t = (r div 2 ^ (k - 1 - t)) mod 2"

definition sub_index :: "int list \<Rightarrow> int list \<Rightarrow> nat \<Rightarrow> nat" where
  "sub_index qa qb r = foldl (\<lambda>acc q. 2 * acc + bit_at (length qa) r (index_of qa q)) 0 qb"

definition off_support_equal :: "int list \<Rightarrow> int list \<Rightarrow> nat \<Rightarrow> nat \<Rightarrow> bool" where
  "off_support_equal qa qb r c =
     list_all (\<lambda>t. qa ! t \<in> set qb \<or> bit_at (length qa) r t = bit_at (length qa) c t)
       [0..<length qa]"

definition embed :: "int list \<Rightarrow> int list \<Rightarrow> ndarray \<Rightarrow> ndarray" where
  "embed qa qb b =
     (let k = length qa; m = length qb
      in \<lparr>shape = [2 ^ k, 2 ^ k],
          data = concat (map (\<lambda>r. map (\<lambda>c.
                   if off_support_equal qa qb r c
                   then data b ! (sub_index qa qb r * 2 ^ m + sub_index qa qb c)
                   else 0) [0..<2 ^ k]) [0..<2 ^ k])\<rparr>)"

text \<open>The entrywise sum of two arrays of one shape, and square matrices of a given size.\<close>

definition mat_add :: "ndarray \<Rightarrow> ndarray \<Rightarrow> ndarray" where
  "mat_add a b = \<lparr>shape = shape a, data = map2 (+) (data a) (data b)\<rparr>"

definition square :: "nat \<Rightarrow> ndarray \<Rightarrow> bool" where
  "square n a = (shape a = [n, n] \<and> length (data a) = n * n)"

text \<open>The list that has, at the slot the order gives to position \<open>u\<close>, entry \<open>u\<close> of \<open>xs\<close>.\<close>

definition arranged :: "int list \<Rightarrow> int list \<Rightarrow> 'a list \<Rightarrow> 'a list" where
  "arranged qa qb xs =
     map (\<lambda>q. xs ! index_of qa q) qb
     @ map (\<lambda>t. xs ! t) (filter (\<lambda>t. qa ! t \<notin> set qb) [0..<length qa])"

text \<open>
  The term \<open>X(0) * X(1)\<close> with coefficient 1 twice: as the symbolic term that
  \<^verbatim>\<open>from_factors\<close> builds, and as a term of the base class with the same matrix.
\<close>

definition term_XX01_symbolic :: hamiltonian_term where
  "term_XX01_symbolic = SymbolicTerm 1 [sym_X 0, sym_X 1] [(0, [pauli_X]), (1, [pauli_X])]"

definition term_XX01 :: hamiltonian_term where
  "term_XX01 = \<lparr>target_qubits = [0, 1], priv_matrix = Tensor (nd_kron pauli_X pauli_X),
                priv_gate = None, hamiltonian = None, symbolic = None\<rparr>"

section \<open>Construction of terms\<close>

lemma and_then_Inr [simp]: "and_then (Inr x) f = f x"
  by (simp add: and_then_def)

lemma and_then_Inl [simp]: "and_then (Inl e) f = Inl e"
  by (simp add: and_then_def)

text \<open>
  Claim C9, as amended. The constructor of the base class raises a type error exactly
  when the matrix argument is not \<^verbatim>\<open>None\<close>, not a number and not an array. For
  \<^verbatim>\<open>None\<close>, a number or an array it returns the term with the given qubits and that
  matrix, without a gate and without an owner.
\<close>

theorem HamiltonianTerm_type_check:
  "(HamiltonianTerm mat q = Inl TypeError)
     = (mat \<noteq> PyNone \<and> \<not> is_numeric mat \<and> \<not> is_tensor mat)
   \<and> (mat = PyNone \<or> is_numeric mat \<or> is_tensor mat \<longrightarrow>
        HamiltonianTerm mat q =
          Inr \<lparr>target_qubits = q, priv_matrix = mat, priv_gate = None,
               hamiltonian = None, symbolic = None\<rparr>)"
  by (simp add: HamiltonianTerm_def)

theorem HamiltonianTerm_type_check_witness:
  "HamiltonianTerm (Num 1) [0] =
     Inr \<lparr>target_qubits = [0], priv_matrix = Num 1, priv_gate = None,
          hamiltonian = None, symbolic = None\<rparr>
   \<and> HamiltonianTerm (PyObj ''str'') [0] = Inl TypeError"
  using HamiltonianTerm_type_check [of "Num 1" "[0]"]
    HamiltonianTerm_type_check [of "PyObj ''str''" "[0]"]
  by simp

text \<open>
  Claim C9 as stated fails at \<^verbatim>\<open>None\<close>: it is neither a number nor an array, and the
  constructor accepts it.
\<close>

theorem HamiltonianTerm_accepts_None:
  "\<not> is_numeric PyNone \<and> \<not> is_tensor PyNone
   \<and> HamiltonianTerm PyNone [0] =
       Inr \<lparr>target_qubits = [0], priv_matrix = PyNone, priv_gate = None,
            hamiltonian = None, symbolic = None\<rparr>"
  by (simp add: HamiltonianTerm_def)

text \<open>
  Claim C10. For every coefficient \<open>c\<close>, \<^verbatim>\<open>from_factors(c, 1)\<close> returns a symbolic
  term without target qubits, without factors and with an empty \<^verbatim>\<open>matrix_map\<close>,
  whose coefficient is \<open>c\<close>; its matrix is the number \<open>c\<close>.
\<close>

theorem from_factors_One:
  "\<exists>t. from_factors c One symbol_map = Inr t
       \<and> target_qubits t = []
       \<and> symbolic t = Some \<lparr>coefficient = c, factors = [], matrix_map = []\<rparr>
       \<and> priv_matrix t = PyNone
       \<and> matrix_value t = Inr (Num c)"
  by (simp add: from_factors_def SymbolicTerm_def matrix_value_def matrix_def)

section \<open>Grouping\<close>

lemma add_order_keys: "fst ` set (add_order os t) = insert (len t) (fst ` set os)"
  by (induction os t rule: add_order.induct) auto

lemma add_order_distinct: "distinct (map fst os) \<Longrightarrow> distinct (map fst (add_order os t))"
  by (induction os t rule: add_order.induct) (auto simp: add_order_keys)

lemma add_order_mset:
  "mset (concat (map snd (add_order os t))) = mset (concat (map snd os)) + {#t#}"
  by (induction os t rule: add_order.induct) auto

lemma bucket_snoc: "bucket (ts @ [t]) = add_order (bucket ts) t"
  by (simp add: bucket_def)

lemma bucket_distinct: "distinct (map fst (bucket ts))"
  by (induction ts rule: rev_induct) (simp_all add: bucket_snoc add_order_distinct, simp add: bucket_def)

lemma bucket_mset: "mset (concat (map snd (bucket ts))) = mset ts"
  by (induction ts rule: rev_induct) (simp_all add: bucket_snoc add_order_mset, simp add: bucket_def)

lemma add_order_len: "\<forall>(k, v) \<in> set os. \<forall>t \<in> set v. len t = k \<Longrightarrow>
   \<forall>(k, v) \<in> set (add_order os t). \<forall>t \<in> set v. len t = k"
  by (induction os t rule: add_order.induct) auto

lemma bucket_len: "\<forall>(k, v) \<in> set (bucket ts). \<forall>t \<in> set v. len t = k"
proof (induction ts rule: rev_induct)
  case Nil
  then show ?case by (simp add: bucket_def)
next
  case (snoc x xs)
  then show ?case unfolding bucket_snoc by (rule add_order_len)
qed

lemma map_fetch_keys:
  "distinct (map fst os) \<Longrightarrow>
   map (\<lambda>k. case map_of os k of None \<Rightarrow> [] | Some l \<Rightarrow> l) (map fst os) = map snd os"
  by (induction os) (auto split: option.splits intro: rev_image_eqI)

lemma mset_concat_map: "mset (concat (map f ks)) = (\<Sum>k\<in>#mset ks. mset (f k))"
  by (induction ks) auto

lemma schedule_mset: "mset (schedule ts) = mset ts"
proof -
  let ?f = "\<lambda>k. case map_of (bucket ts) k of None \<Rightarrow> [] | Some l \<Rightarrow> l"
  have "mset (concat (map ?f (rev (sort (map fst (bucket ts))))))
        = mset (concat (map ?f (map fst (bucket ts))))"
    by (simp only: mset_concat_map mset_rev mset_sort)
  also have "\<dots> = mset ts"
    by (simp only: map_fetch_keys [OF bucket_distinct] bucket_mset)
  finally show ?thesis
    by (simp add: schedule_def Let_def)
qed

lemma place_mset:
  "mset (concat (map members (place c gs))) = mset (concat (map members gs)) + {#c#}"
  by (induction gs) (auto simp: TermGroup_def append_def)

lemma foldl_place_mset:
  "mset (concat (map members (foldl (\<lambda>groups child. place child groups) gs cs)))
     = mset (concat (map members gs)) + mset cs"
  by (induction cs arbitrary: gs) (auto simp: place_mset)

lemma from_terms_mset: "mset (concat (map members (from_terms ts))) = mset ts"
  by (simp add: from_terms_def foldl_place_mset schedule_mset)

lemma place_first_fit:
  "(\<exists>i<length gs. can_append (gs ! i) c \<and> (\<forall>j<i. \<not> can_append (gs ! j) c)
        \<and> place c gs = gs[i := append (gs ! i) c])
   \<or> ((\<forall>g\<in>set gs. \<not> can_append g c) \<and> place c gs = gs @ [TermGroup c])"
proof (induction gs)
  case Nil
  then show ?case by simp
next
  case (Cons g gs)
  show ?case
  proof (cases "can_append g c")
    case True
    then have "0 < length (g # gs) \<and> can_append ((g # gs) ! 0) c
        \<and> (\<forall>j<0. \<not> can_append ((g # gs) ! j) c)
        \<and> place c (g # gs) = (g # gs)[0 := append ((g # gs) ! 0) c]"
      by simp
    then show ?thesis by blast
  next
    case False
    from Cons.IH show ?thesis
    proof
      assume "\<exists>i<length gs. can_append (gs ! i) c \<and> (\<forall>j<i. \<not> can_append (gs ! j) c)
        \<and> place c gs = gs[i := append (gs ! i) c]"
      then obtain i where i: "i < length gs" "can_append (gs ! i) c"
        "\<forall>j<i. \<not> can_append (gs ! j) c" "place c gs = gs[i := append (gs ! i) c]"
        by blast
      have "\<forall>j<Suc i. \<not> can_append ((g # gs) ! j) c"
        using False i(3) by (auto simp: less_Suc_eq_0_disj)
      with i False have "Suc i < length (g # gs) \<and> can_append ((g # gs) ! Suc i) c
        \<and> (\<forall>j<Suc i. \<not> can_append ((g # gs) ! j) c)
        \<and> place c (g # gs) = (g # gs)[Suc i := append ((g # gs) ! Suc i) c]"
        by simp
      then show ?thesis by blast
    next
      assume "(\<forall>g\<in>set gs. \<not> can_append g c) \<and> place c gs = gs @ [TermGroup c]"
      with False show ?thesis by simp
    qed
  qed
qed


lemma concat_sorted_by_len:
  "sorted_wrt (\<lambda>a b. b \<le> a) ks \<Longrightarrow> (\<forall>k\<in>set ks. \<forall>t\<in>set (f k). len t = k) \<Longrightarrow>
   sorted_wrt (\<lambda>a b. len b \<le> len a) (concat (map f ks))"
proof (induction ks)
  case Nil
  then show ?case by simp
next
  case (Cons k ks)
  have same: "sorted_wrt (\<lambda>a b. len b \<le> len a) (f k)"
    using Cons.prems(2) by (simp add: sorted_wrt_iff_nth_less)
  have rest: "sorted_wrt (\<lambda>a b. len b \<le> len a) (concat (map f ks))"
    using Cons by simp
  have cross: "\<forall>a\<in>set (f k). \<forall>b\<in>set (concat (map f ks)). len b \<le> len a"
    using Cons.prems by auto
  show ?case using same rest cross by (simp add: sorted_wrt_append)
qed

lemma fetch_len:
  "\<forall>t\<in>set (case map_of (bucket ts) k of None \<Rightarrow> [] | Some l \<Rightarrow> l). len t = k"
proof (cases "map_of (bucket ts) k")
  case None
  then show ?thesis by simp
next
  case (Some l)
  then have "(k, l) \<in> set (bucket ts)" by (rule map_of_SomeD)
  with bucket_len [of ts] have "\<forall>t\<in>set l. len t = k" by blast
  with Some show ?thesis by simp
qed

lemma schedule_descending: "sorted_wrt (\<lambda>a b. len b \<le> len a) (schedule ts)"
proof -
  have "sorted_wrt (\<lambda>a b. b \<le> a) (rev (sort (map fst (bucket ts))))"
    by (simp add: sorted_wrt_rev)
  then show ?thesis
    unfolding schedule_def Let_def
    by (rule concat_sorted_by_len) (simp add: fetch_len)
qed

lemma from_terms_two:
  assumes "target_qubits t1 = [0]" "target_qubits t2 = [0, 1]"
  shows "from_terms [t1, t2] = [\<lparr>members = [t2, t1], group_qubits = {0, 1}, priv_term = None\<rparr>]"
  using assms
  by (simp add: from_terms_def schedule_def bucket_def len_def TermGroup_def append_def
      can_append_def insert_commute)


lemma seeded_TermGroup: "seeded (TermGroup t)"
  by (simp add: seeded_def TermGroup_def)

lemma seeded_append: "seeded g \<Longrightarrow> can_append g t \<Longrightarrow> seeded (append g t)"
  by (auto simp: seeded_def append_def can_append_def split: list.splits)

lemma place_seeded: "list_all seeded gs \<Longrightarrow> list_all seeded (place c gs)"
  by (induction gs) (auto simp: seeded_TermGroup seeded_append)

lemma foldl_place_seeded:
  "list_all seeded gs \<Longrightarrow> list_all seeded (foldl (\<lambda>groups child. place child groups) gs cs)"
  by (induction cs arbitrary: gs) (auto simp: place_seeded)

lemma from_terms_seeded: "list_all seeded (from_terms ts)"
  by (simp add: from_terms_def foldl_place_seeded)

lemma mul_target_qubits:
  "term_invariant t \<Longrightarrow> mul t x = Inr t' \<Longrightarrow> target_qubits t' = target_qubits t"
  by (auto simp: mul_def term_invariant_def HamiltonianTerm_def SymbolicTerm_def and_then_def
      split: option.splits sum.splits if_splits)

lemma rescale_target_qubits:
  "term_invariant t \<Longrightarrow> rescale cs t = Inr t' \<Longrightarrow> target_qubits t' = target_qubits t"
  by (auto simp: rescale_def split: option.splits dest: mul_target_qubits)

lemma construct_like_target_qubits:
  "construct_like self m q = Inr r \<Longrightarrow> target_qubits r = q"
  by (auto simp: construct_like_def HamiltonianTerm_def SymbolicTerm_def and_then_def
      split: option.splits sum.splits if_splits)

lemma and_then_InrD: "and_then r f = Inr y \<Longrightarrow> \<exists>x. r = Inr x \<and> f x = Inr y"
  by (cases r) simp_all

lemma merge_target_qubits:
  assumes "merge self a = Inr r"
  shows "target_qubits r = target_qubits self"
proof -
  from assms obtain m q where "construct_like self m q = Inr r" "q = target_qubits self"
    unfolding merge_def Let_def
    by (auto dest!: and_then_InrD split: if_splits)
  then show ?thesis by (simp add: construct_like_target_qubits)
qed

lemma merge_calls_subset:
  "\<forall>t\<in>set ts. term_invariant t \<and> set (target_qubits t) \<subseteq> set (target_qubits merged) \<Longrightarrow>
   (self, arg) \<in> set (merge_calls cs merged ts) \<Longrightarrow>
   set (target_qubits arg) \<subseteq> set (target_qubits self)"
proof (induction ts arbitrary: merged)
  case Nil
  then show ?case by simp
next
  case (Cons t ts)
  show ?case
  proof (cases "rescale cs t")
    case (Inl e)
    with Cons.prems show ?thesis by simp
  next
    case (Inr a)
    have a: "target_qubits a = target_qubits t"
      using Cons.prems(1) Inr by (simp add: rescale_target_qubits)
    show ?thesis
    proof (cases "(self, arg) = (merged, a)")
      case True
      with a Cons.prems(1) show ?thesis by simp
    next
      case False
      with Cons.prems(2) Inr obtain merged' where m: "merge merged a = Inr merged'"
        and mem: "(self, arg) \<in> set (merge_calls cs merged' ts)"
        by (cases "merge merged a") auto
      have "target_qubits merged' = target_qubits merged"
        using m by (rule merge_target_qubits)
      with Cons.prems(1) have
        "\<forall>t\<in>set ts. term_invariant t \<and> set (target_qubits t) \<subseteq> set (target_qubits merged')"
        by simp
      from Cons.IH [OF this mem] show ?thesis .
    qed
  qed
qed

lemma to_term_calls_subset:
  assumes "seeded g" "\<forall>t\<in>set (members g). term_invariant t"
    "(self, arg) \<in> set (to_term_calls cs g)"
  shows "set (target_qubits arg) \<subseteq> set (target_qubits self)"
proof -
  from assms(1) obtain t0 rest where g: "members g = t0 # rest"
    and sub: "\<forall>t\<in>set rest. set (target_qubits t) \<subseteq> set (target_qubits t0)"
    by (auto simp: seeded_def list_all_iff split: list.splits)
  from assms(3) g obtain merged where r: "rescale cs t0 = Inr merged"
    and mem: "(self, arg) \<in> set (merge_calls cs merged rest)"
    by (cases "rescale cs t0") (auto simp: to_term_calls_def)
  have "target_qubits merged = target_qubits t0"
    using assms(2) g r by (simp add: rescale_target_qubits)
  with sub assms(2) g have
    "\<forall>t\<in>set rest. term_invariant t \<and> set (target_qubits t) \<subseteq> set (target_qubits merged)"
    by simp
  from merge_calls_subset [OF this mem] show ?thesis .
qed


lemma seeded_members:
  assumes "seeded g" "t \<in> set (members g)"
  shows "set (target_qubits t) \<subseteq> group_qubits g"
proof -
  from assms(1) obtain t0 rest where g: "members g = t0 # rest"
    "group_qubits g = set (target_qubits t0)"
    "\<forall>u\<in>set rest. set (target_qubits u) \<subseteq> set (target_qubits t0)"
    by (auto simp: seeded_def list_all_iff split: list.splits)
  from assms(2) g(1) have "t = t0 \<or> t \<in> set rest" by simp
  then show ?thesis using g(2,3) by auto
qed

lemma schedule_example: "schedule [term_X0, term_ZZ01] = [term_ZZ01, term_X0]"
  by (simp add: schedule_def bucket_def len_def term_X0_def term_ZZ01_def)

text \<open>
  Claim C2. For every list of terms, the members of the groups returned by
  \<^verbatim>\<open>from_terms\<close> are the input terms, each as often as it occurs in the input, so
  every input term is in exactly one group, and the qubit set of that group contains
  the support of the term. The result of \<^verbatim>\<open>from_terms\<close> is the end of a run that
  processes the terms one by one in the order \<open>schedule\<close>, which holds each input term
  once; at every step of the run the term is either appended to the first group whose
  qubit set contains the support of the term at that moment, before the append (which
  is when \<^verbatim>\<open>can_append\<close> holds), or, when no group contains it, seeds a new group of
  one member at the end.
\<close>

theorem from_terms_coverage_first_fit:
  "mset (concat (map members (from_terms ts))) = mset ts
   \<and> (\<forall>g\<in>set (from_terms ts). \<forall>t\<in>set (members g).
         set (target_qubits t) \<subseteq> group_qubits g)
   \<and> from_terms ts = foldl (\<lambda>groups child. place child groups) [] (schedule ts)
   \<and> mset (schedule ts) = mset ts
   \<and> (\<forall>n<length (schedule ts).
        let gs = foldl (\<lambda>groups child. place child groups) [] (take n (schedule ts));
            c = schedule ts ! n
        in foldl (\<lambda>groups child. place child groups) [] (take (Suc n) (schedule ts)) = place c gs
           \<and> ((\<exists>i<length gs. can_append (gs ! i) c
                  \<and> set (target_qubits c) \<subseteq> group_qubits (gs ! i)
                  \<and> (\<forall>j<i. \<not> set (target_qubits c) \<subseteq> group_qubits (gs ! j))
                  \<and> place c gs = gs[i := append (gs ! i) c])
              \<or> ((\<forall>g\<in>set gs. \<not> set (target_qubits c) \<subseteq> group_qubits g)
                  \<and> place c gs = gs @ [TermGroup c])))"
proof (intro conjI allI impI ballI)
  show "mset (concat (map members (from_terms ts))) = mset ts"
    by (rule from_terms_mset)
  show "from_terms ts = foldl (\<lambda>groups child. place child groups) [] (schedule ts)"
    by (simp add: from_terms_def)
  show "mset (schedule ts) = mset ts"
    by (rule schedule_mset)
next
  fix g t
  assume "g \<in> set (from_terms ts)" "t \<in> set (members g)"
  moreover from this(1) from_terms_seeded [of ts] have "seeded g"
    by (simp add: list_all_iff)
  ultimately show "set (target_qubits t) \<subseteq> group_qubits g"
    by (intro seeded_members)
next
  fix n
  assume n: "n < length (schedule ts)"
  have step: "foldl (\<lambda>groups child. place child groups) [] (take (Suc n) (schedule ts))
      = place (schedule ts ! n)
          (foldl (\<lambda>groups child. place child groups) [] (take n (schedule ts)))"
    using n by (simp add: take_Suc_conv_app_nth)
  show "let gs = foldl (\<lambda>groups child. place child groups) [] (take n (schedule ts));
            c = schedule ts ! n
        in foldl (\<lambda>groups child. place child groups) [] (take (Suc n) (schedule ts)) = place c gs
           \<and> ((\<exists>i<length gs. can_append (gs ! i) c
                  \<and> set (target_qubits c) \<subseteq> group_qubits (gs ! i)
                  \<and> (\<forall>j<i. \<not> set (target_qubits c) \<subseteq> group_qubits (gs ! j))
                  \<and> place c gs = gs[i := append (gs ! i) c])
              \<or> ((\<forall>g\<in>set gs. \<not> set (target_qubits c) \<subseteq> group_qubits g)
                  \<and> place c gs = gs @ [TermGroup c]))"
    unfolding Let_def using step place_first_fit [of _ "schedule ts ! n"]
    by (simp only: can_append_def) blast
qed

theorem from_terms_coverage_first_fit_witness:
  "(1::nat) < length (schedule [term_X0, term_ZZ01])
   \<and> can_append (TermGroup term_ZZ01) term_X0
   \<and> from_terms [term_X0, term_ZZ01] = [append (TermGroup term_ZZ01) term_X0]
   \<and> term_X0 \<in> set (members (append (TermGroup term_ZZ01) term_X0))
   \<and> set (target_qubits term_X0) \<subseteq> group_qubits (append (TermGroup term_ZZ01) term_X0)"
proof -
  note cov = from_terms_coverage_first_fit [of "[term_X0, term_ZZ01]"]
  have n: "(1::nat) < length (schedule [term_X0, term_ZZ01])"
    by (simp add: schedule_example)
  have ca: "can_append (TermGroup term_ZZ01) term_X0"
    by (simp add: can_append_def TermGroup_def term_X0_def term_ZZ01_def)
  from cov n
  have "foldl (\<lambda>groups child. place child groups) []
          (take (Suc 1) (schedule [term_X0, term_ZZ01]))
        = place (schedule [term_X0, term_ZZ01] ! 1)
            (foldl (\<lambda>groups child. place child groups) []
               (take 1 (schedule [term_X0, term_ZZ01])))"
    unfolding Let_def by blast
  with ca have run: "foldl (\<lambda>groups child. place child groups) []
          (schedule [term_X0, term_ZZ01]) = [append (TermGroup term_ZZ01) term_X0]"
    by (simp add: schedule_example)
  from cov have "from_terms [term_X0, term_ZZ01]
      = foldl (\<lambda>groups child. place child groups) [] (schedule [term_X0, term_ZZ01])"
    by blast
  with run have ft: "from_terms [term_X0, term_ZZ01] = [append (TermGroup term_ZZ01) term_X0]"
    by simp
  have mem: "term_X0 \<in> set (members (append (TermGroup term_ZZ01) term_X0))"
    by (simp add: append_def TermGroup_def)
  from cov ft mem
  have "set (target_qubits term_X0) \<subseteq> group_qubits (append (TermGroup term_ZZ01) term_X0)"
    by (metis list.set_intros(1))
  with n ca ft mem show ?thesis by blast
qed

text \<open>
  Claim C6. \<^verbatim>\<open>from_terms\<close> processes the terms by descending number of qubits,
  whatever the order of the input: the processing order \<open>schedule\<close> never has a term
  before one with more qubits. In particular a term over qubit 0 supplied before a
  term over qubits 0 and 1 ends in one group of two members, seeded by the two-qubit
  term.
\<close>

theorem from_terms_largest_first:
  "sorted_wrt (\<lambda>a b. len b \<le> len a) (schedule ts)
   \<and> from_terms ts = foldl (\<lambda>groups child. place child groups) [] (schedule ts)
   \<and> (target_qubits t1 = [0] \<and> target_qubits t2 = [0, 1] \<longrightarrow>
        from_terms [t1, t2]
          = [\<lparr>members = [t2, t1], group_qubits = {0, 1}, priv_term = None\<rparr>])"
proof (intro conjI impI)
  show "sorted_wrt (\<lambda>a b. len b \<le> len a) (schedule ts)"
    by (rule schedule_descending)
  show "from_terms ts = foldl (\<lambda>groups child. place child groups) [] (schedule ts)"
    by (simp add: from_terms_def)
next
  assume "target_qubits t1 = [0] \<and> target_qubits t2 = [0, 1]"
  then show "from_terms [t1, t2]
          = [\<lparr>members = [t2, t1], group_qubits = {0, 1}, priv_term = None\<rparr>]"
    by (simp add: from_terms_two)
qed

theorem from_terms_largest_first_witness:
  "target_qubits term_X0 = [0] \<and> target_qubits term_ZZ01 = [0, 1]
   \<and> from_terms [term_X0, term_ZZ01]
       = [\<lparr>members = [term_ZZ01, term_X0], group_qubits = {0, 1}, priv_term = None\<rparr>]"
proof -
  have tq: "target_qubits term_X0 = [0] \<and> target_qubits term_ZZ01 = [0, 1]"
    by (simp add: term_X0_def term_ZZ01_def)
  with from_terms_largest_first [of "[term_X0, term_ZZ01]" term_X0 term_ZZ01]
  show ?thesis by blast
qed

text \<open>
  Claim C7. Every group returned by \<^verbatim>\<open>from_terms\<close> has a first member, its qubit set
  is the support of that member, and the support of every later member is contained
  in it. Consequently, for input terms that satisfy the invariant of their class,
  every call of \<^verbatim>\<open>merge\<close> made by \<^verbatim>\<open>to_term\<close> on such a group, under any
  coefficients, has an argument whose qubits are among the qubits of its receiver.
\<close>

theorem from_terms_groups_seeded:
  assumes "g \<in> set (from_terms ts)"
  shows "\<exists>t0 rest. members g = t0 # rest
           \<and> group_qubits g = set (target_qubits t0)
           \<and> (\<forall>t\<in>set rest. set (target_qubits t) \<subseteq> set (target_qubits t0))
           \<and> ((\<forall>t\<in>set ts. term_invariant t) \<longrightarrow>
                (\<forall>(self, arg)\<in>set (to_term_calls coefficients g).
                   set (target_qubits arg) \<subseteq> set (target_qubits self)))"
proof -
  from assms from_terms_seeded [of ts] have s: "seeded g"
    by (simp add: list_all_iff)
  then obtain t0 rest where g: "members g = t0 # rest"
    "group_qubits g = set (target_qubits t0)"
    "\<forall>t\<in>set rest. set (target_qubits t) \<subseteq> set (target_qubits t0)"
    by (auto simp: seeded_def list_all_iff split: list.splits)
  have sub: "set (members g) \<subseteq> set ts"
  proof
    fix t assume "t \<in> set (members g)"
    with assms have "t \<in> set (concat (map members (from_terms ts)))" by auto
    then have "t \<in># mset (concat (map members (from_terms ts)))" by simp
    then show "t \<in> set ts" by (simp only: from_terms_mset set_mset_mset)
  qed
  have "(\<forall>t\<in>set ts. term_invariant t) \<longrightarrow>
          (\<forall>(self, arg)\<in>set (to_term_calls coefficients g).
             set (target_qubits arg) \<subseteq> set (target_qubits self))"
    using to_term_calls_subset [OF s] sub by blast
  with g show ?thesis by blast
qed

theorem from_terms_groups_seeded_witness:
  "append (TermGroup term_ZZ01) term_X0 \<in> set (from_terms [term_X0, term_ZZ01])
   \<and> term_invariant term_X0 \<and> term_invariant term_ZZ01
   \<and> (term_ZZ01, term_X0) \<in> set (to_term_calls Map.empty (append (TermGroup term_ZZ01) term_X0))
   \<and> set (target_qubits term_X0) \<subseteq> set (target_qubits term_ZZ01)"
proof -
  have ft: "from_terms [term_X0, term_ZZ01] = [append (TermGroup term_ZZ01) term_X0]"
    by (simp add: from_terms_two term_X0_def term_ZZ01_def append_def TermGroup_def
        insert_commute)
  then have mem: "append (TermGroup term_ZZ01) term_X0 \<in> set (from_terms [term_X0, term_ZZ01])"
    by simp
  have inv: "term_invariant term_X0 \<and> term_invariant term_ZZ01"
    by (simp add: term_invariant_def term_X0_def term_ZZ01_def)
  then have inv': "\<forall>t\<in>set [term_X0, term_ZZ01]. term_invariant t"
    by simp
  have call: "(term_ZZ01, term_X0)
      \<in> set (to_term_calls Map.empty (append (TermGroup term_ZZ01) term_X0))"
    by (simp add: to_term_calls_def append_def TermGroup_def rescale_def)
  from from_terms_groups_seeded [OF mem, of Map.empty] inv' call
  have "set (target_qubits term_X0) \<subseteq> set (target_qubits term_ZZ01)"
    by blast
  with mem inv call show ?thesis by blast
qed

lemma merge_loop_snoc:
  "merge_loop cs merged (ts @ [t])
     = and_then (merge_loop cs merged ts) (\<lambda>m. and_then (rescale cs t) (\<lambda>a. merge m a))"
proof (induction ts arbitrary: merged)
  case Nil
  show ?case by (cases "rescale cs t") (auto simp: and_then_def split: sum.splits)
next
  case (Cons u us)
  show ?case
    by (cases "rescale cs u") (auto simp: Cons.IH and_then_def split: sum.splits)
qed

text \<open>
  Claim C8. \<^verbatim>\<open>append\<close> puts the term at the end of the members, replaces the qubit
  set by its union with the support of the term, which leaves it unchanged when
  \<^verbatim>\<open>can_append\<close> held before, and empties the stored merged term; a group has no
  other state. The next read of \<^verbatim>\<open>term\<close> therefore computes \<^verbatim>\<open>to_term()\<close> again and
  stores it, and \<^verbatim>\<open>to_term\<close> of the extended group is the fold over the old members
  followed by the merge of the new one.
\<close>

theorem append_effect:
  "append g t = \<lparr>members = members g @ [t],
                 group_qubits = group_qubits g \<union> set (target_qubits t),
                 priv_term = None\<rparr>
   \<and> (can_append g t \<longrightarrow> group_qubits (append g t) = group_qubits g)
   \<and> term_property (append g t)
       = and_then (to_term Map.empty (append g t))
           (\<lambda>r. Inr (r, (append g t)\<lparr>priv_term := Some r\<rparr>))
   \<and> (members g \<noteq> [] \<longrightarrow>
        to_term coefficients (append g t)
          = and_then (to_term coefficients g)
              (\<lambda>m. and_then (rescale coefficients t) (\<lambda>a. merge m a)))"
proof (intro conjI impI)
  show "append g t = \<lparr>members = members g @ [t],
                 group_qubits = group_qubits g \<union> set (target_qubits t),
                 priv_term = None\<rparr>"
    by (simp add: append_def)
  show "term_property (append g t)
       = and_then (to_term Map.empty (append g t))
           (\<lambda>r. Inr (r, (append g t)\<lparr>priv_term := Some r\<rparr>))"
    by (simp add: term_property_def append_def)
next
  assume "can_append g t"
  then show "group_qubits (append g t) = group_qubits g"
    by (auto simp: can_append_def append_def)
next
  assume "members g \<noteq> []"
  then obtain t0 rest where g: "members g = t0 # rest" by (cases "members g") auto
  show "to_term coefficients (append g t)
          = and_then (to_term coefficients g)
              (\<lambda>m. and_then (rescale coefficients t) (\<lambda>a. merge m a))"
    by (cases "rescale coefficients t0") (simp_all add: to_term_def append_def g merge_loop_snoc)
qed

theorem append_effect_witness:
  "can_append (TermGroup term_ZZ01) term_X0
   \<and> members (TermGroup term_ZZ01) \<noteq> []
   \<and> group_qubits (append (TermGroup term_ZZ01) term_X0) = group_qubits (TermGroup term_ZZ01)
   \<and> members (append (TermGroup term_ZZ01) term_X0) = [term_ZZ01, term_X0]
   \<and> to_term Map.empty (append (TermGroup term_ZZ01) term_X0) = merge term_ZZ01 term_X0"
proof -
  have ca: "can_append (TermGroup term_ZZ01) term_X0"
    by (simp add: can_append_def TermGroup_def term_X0_def term_ZZ01_def)
  have ne: "members (TermGroup term_ZZ01) \<noteq> []"
    by (simp add: TermGroup_def)
  have tt: "to_term Map.empty (TermGroup term_ZZ01) = Inr term_ZZ01"
    by (simp add: to_term_def TermGroup_def rescale_def)
  have rs: "rescale Map.empty term_X0 = Inr term_X0"
    by (simp add: rescale_def)
  note eff = append_effect [of "TermGroup term_ZZ01" term_X0 Map.empty]
  from eff ca have q: "group_qubits (append (TermGroup term_ZZ01) term_X0)
      = group_qubits (TermGroup term_ZZ01)"
    by blast
  from eff have "members (append (TermGroup term_ZZ01) term_X0)
      = members (TermGroup term_ZZ01) @ [term_X0]"
    by (simp add: append_def)
  then have m: "members (append (TermGroup term_ZZ01) term_X0) = [term_ZZ01, term_X0]"
    by (simp add: TermGroup_def)
  from eff ne have "to_term Map.empty (append (TermGroup term_ZZ01) term_X0)
      = and_then (to_term Map.empty (TermGroup term_ZZ01))
          (\<lambda>m. and_then (rescale Map.empty term_X0) (\<lambda>a. merge m a))"
    by blast
  then have t: "to_term Map.empty (append (TermGroup term_ZZ01) term_X0)
      = merge term_ZZ01 term_X0"
    by (simp add: tt rs)
  from ca ne q m t show ?thesis by blast
qed


section \<open>Symbolic terms\<close>

lemma nd_matmul_square:
  "shape a = [2, 2] \<Longrightarrow> shape b = [2, 2] \<Longrightarrow> nd_matmul a b = Inr (mat_mul a b)"
  by (simp add: nd_matmul_def mat_mul_def)

lemma shape_mat_mul: "shape a = [2, 2] \<Longrightarrow> shape b = [2, 2] \<Longrightarrow> shape (mat_mul a b) = [2, 2]"
  by (simp add: mat_mul_def)

lemma matmul_loop_square:
  "shape m = [2, 2] \<Longrightarrow> \<forall>x\<in>set ms. shape x = [2, 2] \<Longrightarrow>
   matmul_loop m ms = Inr (foldl mat_mul m ms)"
  by (induction ms arbitrary: m) (simp_all add: nd_matmul_square shape_mat_mul)

lemma matrices_product_square:
  assumes "ms \<noteq> []" "\<forall>x\<in>set ms. shape x = [2, 2]"
  shows "matrices_product ms = Inr (ordered_product ms)"
proof (cases ms)
  case Nil
  with assms show ?thesis by simp
next
  case (Cons m rest)
  show ?thesis
  proof (cases rest)
    case Nil
    with Cons show ?thesis by (simp add: ordered_product_def)
  next
    case (Cons m' rest')
    with \<open>ms = m # rest\<close> assms show ?thesis
      by (simp add: ordered_product_def matmul_loop_square del: matmul_loop.simps)
  qed
qed

lemma kron_loop_chain:
  assumes "as_array acc = Inr a"
    and "\<forall>q\<in>set qs. \<exists>ms. map_of mm q = Some ms \<and> ms \<noteq> [] \<and> (\<forall>x\<in>set ms. shape x = [2, 2])"
  shows "\<exists>v. kron_loop mm acc qs = Inr v
            \<and> as_array v
                = Inr (foldl nd_kron a (map (\<lambda>q. ordered_product (the (map_of mm q))) qs))
            \<and> v \<noteq> PyNone"
  using assms
proof (induction qs arbitrary: acc a)
  case Nil
  then show ?case by (cases acc) auto
next
  case (Cons q qs)
  from Cons.prems(2) obtain ms where ms: "map_of mm q = Some ms" "ms \<noteq> []"
    "\<forall>x\<in>set ms. shape x = [2, 2]" by auto
  have mp: "matrices_product ms = Inr (ordered_product ms)"
    using ms by (simp add: matrices_product_square)
  have k: "np_kron acc (Tensor (ordered_product ms)) = Inr (nd_kron a (ordered_product ms))"
    using Cons.prems(1) by (simp add: np_kron_def)
  have "as_array (Tensor (nd_kron a (ordered_product ms))) = Inr (nd_kron a (ordered_product ms))"
    by simp
  from Cons.IH [OF this] Cons.prems(2)
  obtain v where "kron_loop mm (Tensor (nd_kron a (ordered_product ms))) qs = Inr v"
    "as_array v = Inr (foldl nd_kron (nd_kron a (ordered_product ms))
        (map (\<lambda>q. ordered_product (the (map_of mm q))) qs))" "v \<noteq> PyNone"
    by auto
  then show ?case by (simp add: ms mp k)
qed

lemma symbolic_matrix_chain:
  assumes "\<forall>(q, ms)\<in>set mm. ms \<noteq> [] \<and> (\<forall>x\<in>set ms. shape x = [2, 2])"
  shows "\<exists>v. matrix (SymbolicTerm c fs mm)
              = Inr (v, (SymbolicTerm c fs mm)\<lparr>priv_matrix := v\<rparr>)
          \<and> as_array v
              = Inr (kron_chain c (map (\<lambda>q. ordered_product (the (map_of mm q)))
                                       (sort (map fst mm))))
          \<and> matrix ((SymbolicTerm c fs mm)\<lparr>priv_matrix := v\<rparr>)
              = Inr (v, (SymbolicTerm c fs mm)\<lparr>priv_matrix := v\<rparr>)"
proof -
  have keys: "\<forall>q\<in>set (sort (map fst mm)).
      \<exists>ms. map_of mm q = Some ms \<and> ms \<noteq> [] \<and> (\<forall>x\<in>set ms. shape x = [2, 2])"
  proof
    fix q assume "q \<in> set (sort (map fst mm))"
    then have "q \<in> fst ` set mm" by simp
    then obtain ms where "map_of mm q = Some ms"
      by (metis map_of_eq_None_iff not_Some_eq)
    moreover from this have "(q, ms) \<in> set mm" by (rule map_of_SomeD)
    ultimately show "\<exists>ms. map_of mm q = Some ms \<and> ms \<noteq> [] \<and> (\<forall>x\<in>set ms. shape x = [2, 2])"
      using assms by auto
  qed
  have "as_array (Num c) = Inr \<lparr>shape = [], data = [c]\<rparr>" by simp
  from kron_loop_chain [OF this keys]
  obtain v where v: "kron_loop mm (Num c) (sort (map fst mm)) = Inr v"
    "as_array v = Inr (foldl nd_kron \<lparr>shape = [], data = [c]\<rparr>
        (map (\<lambda>q. ordered_product (the (map_of mm q))) (sort (map fst mm))))"
    "v \<noteq> PyNone" by blast
  have 1: "matrix (SymbolicTerm c fs mm) = Inr (v, (SymbolicTerm c fs mm)\<lparr>priv_matrix := v\<rparr>)"
    using v(1) by (simp add: matrix_def SymbolicTerm_def)
  have 2: "matrix ((SymbolicTerm c fs mm)\<lparr>priv_matrix := v\<rparr>)
              = Inr (v, (SymbolicTerm c fs mm)\<lparr>priv_matrix := v\<rparr>)"
    using v(3) by (simp add: matrix_def SymbolicTerm_def)
  from 1 2 v(2) show ?thesis unfolding kron_chain_def by blast
qed

text \<open>
  Claim C3. For every symbolic term as its constructor builds it, whose \<^verbatim>\<open>matrix_map\<close>
  holds non-empty lists of matrices of two rows and two columns, the first read of
  \<^verbatim>\<open>matrix\<close> succeeds, stores the value and returns the chain of Kronecker products
  whose leftmost factor is the coefficient, followed for each key \<open>q\<close> in ascending
  order by the ordered product, from the left, of the matrices recorded under \<open>q\<close>; a
  second read returns the stored value. For coefficient 2 and \<open>X(0) * X(1)\<close> the
  matrix is \<open>2 * kron(X, X)\<close>.
\<close>

theorem SymbolicTerm_matrix_kron_chain:
  assumes "\<forall>(q, ms)\<in>set mm. ms \<noteq> [] \<and> (\<forall>x\<in>set ms. shape x = [2, 2])"
  shows "\<exists>v. matrix (SymbolicTerm c fs mm)
              = Inr (v, (SymbolicTerm c fs mm)\<lparr>priv_matrix := v\<rparr>)
          \<and> as_array v
              = Inr (kron_chain c (map (\<lambda>q. ordered_product (the (map_of mm q)))
                                       (sort (map fst mm))))
          \<and> matrix ((SymbolicTerm c fs mm)\<lparr>priv_matrix := v\<rparr>)
              = Inr (v, (SymbolicTerm c fs mm)\<lparr>priv_matrix := v\<rparr>)"
  using assms by (rule symbolic_matrix_chain)

lemma XX_example:
  "from_factors 2 (Product [Atom (Sym (sym_X 0)), Atom (Sym (sym_X 1))]) None
     = Inr (SymbolicTerm 2 [sym_X 0, sym_X 1] [(0, [pauli_X]), (1, [pauli_X])])"
  by (simp add: from_factors_def sym_X_def substitute_def)

theorem SymbolicTerm_matrix_kron_chain_witness:
  "from_factors 2 (Product [Atom (Sym (sym_X 0)), Atom (Sym (sym_X 1))]) None
     = Inr (SymbolicTerm 2 [sym_X 0, sym_X 1] [(0, [pauli_X]), (1, [pauli_X])])
   \<and> shape pauli_X = [2, 2]
   \<and> matrix_value (SymbolicTerm 2 [sym_X 0, sym_X 1] [(0, [pauli_X]), (1, [pauli_X])])
       = Inr (Tensor \<lparr>shape = [4, 4],
                      data = [0, 0, 0, 2,  0, 0, 2, 0,  0, 2, 0, 0,  2, 0, 0, 0]\<rparr>)
   \<and> np_scale 2 (Tensor (nd_kron pauli_X pauli_X))
       = Inr (Tensor \<lparr>shape = [4, 4],
                      data = [0, 0, 0, 2,  0, 0, 2, 0,  0, 2, 0, 0,  2, 0, 0, 0]\<rparr>)"
proof -
  let ?mm = "[(0::int, [pauli_X]), (1, [pauli_X])]"
  have sh: "shape pauli_X = [2, 2]" by (simp add: pauli_X_def)
  then have hyp: "\<forall>(q, ms)\<in>set ?mm. ms \<noteq> [] \<and> (\<forall>x\<in>set ms. shape x = [2, 2])"
    by simp
  from SymbolicTerm_matrix_kron_chain [OF hyp, of 2 "[sym_X 0, sym_X 1]"]
  obtain v where v: "matrix (SymbolicTerm 2 [sym_X 0, sym_X 1] ?mm)
      = Inr (v, (SymbolicTerm 2 [sym_X 0, sym_X 1] ?mm)\<lparr>priv_matrix := v\<rparr>)"
    "as_array v = Inr (kron_chain 2 (map (\<lambda>q. ordered_product (the (map_of ?mm q)))
                                       (sort (map fst ?mm))))"
    by blast
  have chain: "kron_chain 2 (map (\<lambda>q. ordered_product (the (map_of ?mm q))) (sort (map fst ?mm)))
      = \<lparr>shape = [4, 4], data = [0, 0, 0, 2,  0, 0, 2, 0,  0, 2, 0, 0,  2, 0, 0, 0]\<rparr>"
    by code_simp
  have "v \<noteq> Num 2"
    using v(2) chain by auto
  with v(2) chain have "v = Tensor \<lparr>shape = [4, 4],
      data = [0, 0, 0, 2,  0, 0, 2, 0,  0, 2, 0, 0,  2, 0, 0, 0]\<rparr>"
    by (cases v) auto
  with v(1) have mv: "matrix_value (SymbolicTerm 2 [sym_X 0, sym_X 1] ?mm)
       = Inr (Tensor \<lparr>shape = [4, 4],
                      data = [0, 0, 0, 2,  0, 0, 2, 0,  0, 2, 0, 0,  2, 0, 0, 0]\<rparr>)"
    by (simp add: matrix_value_def)
  have kr: "np_scale 2 (Tensor (nd_kron pauli_X pauli_X))
       = Inr (Tensor \<lparr>shape = [4, 4],
                      data = [0, 0, 0, 2,  0, 0, 2, 0,  0, 2, 0, 0,  2, 0, 0, 0]\<rparr>)"
    by code_simp
  from XX_example sh mv kr show ?thesis by blast
qed


lemma recorded_extend:
  "recorded (matrix_map_extend mm q ms) q'
     = (if q' = q then recorded mm q @ ms else recorded mm q')"
  by (induction mm q ms rule: matrix_map_extend.induct) (auto simp: recorded_def)

lemma square_lists_extend:
  "square_lists mm \<Longrightarrow> ms \<noteq> [] \<Longrightarrow> list_all (\<lambda>x. shape x = [2, 2]) ms \<Longrightarrow>
   square_lists (matrix_map_extend mm q ms)"
  by (induction mm q ms rule: matrix_map_extend.induct) (auto simp: square_lists_def)

lemma qubit_operator_cases:
  assumes "qubit_operator f"
  obtains q m n where "f = Atom (Sym (Symbol q (Tensor m) n))" "shape m = [2, 2]"
  | q m n p where "f = Pow (Sym (Symbol q (Tensor m) n)) (Integer p)" "shape m = [2, 2]" "0 < p"
  using assms by (elim qubit_operator.elims) auto

lemma parse_factors_operators:
  assumes "list_all qubit_operator fl" "square_lists mm"
  shows "\<exists>fs' mm'. parse_factors None fl c fs mm = Inr (c, fs', mm')
           \<and> square_lists mm'
           \<and> (\<forall>q. recorded mm' q = recorded mm q @ concat (map (factor_matrices q) fl))"
  using assms
proof (induction fl arbitrary: fs mm)
  case Nil
  then show ?case by simp
next
  case (Cons f fl)
  from Cons.prems(1) have f: "qubit_operator f" and fl: "list_all qubit_operator fl"
    by simp_all
  from f show ?case
  proof (cases rule: qubit_operator_cases)
    case (1 q m n)
    let ?mm = "matrix_map_extend mm q [m]"
    have sq: "square_lists ?mm"
      using Cons.prems(2) 1(2) by (simp add: square_lists_extend)
    from Cons.IH [OF fl sq, of "fs @ [Symbol q (Tensor m) n]"]
    obtain fs' mm' where r: "parse_factors None fl c (fs @ [Symbol q (Tensor m) n]) ?mm
          = Inr (c, fs', mm')" "square_lists mm'"
      "\<forall>q'. recorded mm' q' = recorded ?mm q' @ concat (map (factor_matrices q') fl)"
      by blast
    have step: "parse_factors None (f # fl) c fs mm = Inr (c, fs', mm')"
      using r(1) by (simp add: 1(1) substitute_def)
    have "\<forall>q'. recorded mm' q' = recorded mm q' @ concat (map (factor_matrices q') (f # fl))"
      using r(3) by (simp add: 1(1) recorded_extend)
    with step r(2) show ?thesis by blast
  next
    case (2 q m n p)
    let ?mm = "matrix_map_extend mm q (replicate (nat p) m)"
    have ne: "replicate (nat p) m \<noteq> []" using 2(3) by simp
    have sq: "square_lists ?mm"
      using Cons.prems(2) 2(2) ne by (intro square_lists_extend) (simp_all add: list_all_iff)
    from Cons.IH [OF fl sq, of "fs @ replicate (nat p) (Symbol q (Tensor m) n)"]
    obtain fs' mm' where r: "parse_factors None fl c
          (fs @ replicate (nat p) (Symbol q (Tensor m) n)) ?mm = Inr (c, fs', mm')"
      "square_lists mm'"
      "\<forall>q'. recorded mm' q' = recorded ?mm q' @ concat (map (factor_matrices q') fl)"
      by blast
    have step: "parse_factors None (f # fl) c fs mm = Inr (c, fs', mm')"
      using r(1) by (simp add: 2(1) substitute_def)
    have "\<forall>q'. recorded mm' q' = recorded mm q' @ concat (map (factor_matrices q') (f # fl))"
      using r(3) by (simp add: 2(1) recorded_extend)
    with step r(2) show ?thesis by blast
  qed
qed

lemma square_lists_chain:
  assumes "square_lists mm"
  shows "\<forall>(q, ms)\<in>set mm. ms \<noteq> [] \<and> (\<forall>x\<in>set ms. shape x = [2, 2])"
  using assms by (auto simp: square_lists_def list_all_iff)

lemma recorded_key: "q \<in> fst ` set mm \<Longrightarrow> the (map_of mm q) = recorded mm q"
  by (cases "map_of mm q") (auto simp: recorded_def map_of_eq_None_iff)

text \<open>
  Claim C5. For a product of qubit operators, \<^verbatim>\<open>from_factors\<close> succeeds, and for every
  qubit \<open>q\<close> the list \<^verbatim>\<open>matrix_map[q]\<close> holds the matrices of the factors on \<open>q\<close> in
  textual order from the left, a power as often as its exponent says, with nothing
  removed; the matrix of the term is the kron chain of the coefficient and their
  ordered products. So \<open>X(0) * X(0)\<close>, also written as a power, records \<open>[X, X]\<close> and
  contributes \<open>X @ X\<close>, the identity, not \<open>X\<close>.
\<close>

theorem from_factors_repeated_qubit:
  assumes "list_all qubit_operator fl"
  shows "\<exists>t s v. from_factors c (Product fl) None = Inr t
           \<and> symbolic t = Some s
           \<and> (\<forall>q. recorded (matrix_map s) q = concat (map (factor_matrices q) fl))
           \<and> matrix_value t = Inr v
           \<and> as_array v
               = Inr (kron_chain c
                        (map (\<lambda>q. ordered_product (concat (map (factor_matrices q) fl)))
                             (target_qubits t)))"
proof -
  have "square_lists []" by (simp add: square_lists_def)
  from parse_factors_operators [OF assms this, of c "[]"]
  obtain fs' mm' where p: "parse_factors None fl c [] [] = Inr (c, fs', mm')"
    "square_lists mm'" "\<forall>q. recorded mm' q = concat (map (factor_matrices q) fl)"
    by (auto simp: recorded_def)
  let ?t = "SymbolicTerm c fs' mm'"
  have t: "from_factors c (Product fl) None = Inr ?t"
    using p(1) by (simp add: from_factors_def)
  from symbolic_matrix_chain [OF square_lists_chain [OF p(2)], of c fs']
  obtain v where v: "matrix ?t = Inr (v, ?t\<lparr>priv_matrix := v\<rparr>)"
    "as_array v = Inr (kron_chain c (map (\<lambda>q. ordered_product (the (map_of mm' q)))
                                       (sort (map fst mm'))))"
    by blast
  have "map (\<lambda>q. ordered_product (the (map_of mm' q))) (sort (map fst mm'))
      = map (\<lambda>q. ordered_product (concat (map (factor_matrices q) fl))) (sort (map fst mm'))"
    using p(3) by (intro map_cong refl) (simp add: recorded_key)
  with v(2) have "as_array v = Inr (kron_chain c
      (map (\<lambda>q. ordered_product (concat (map (factor_matrices q) fl))) (target_qubits ?t)))"
    by (simp add: SymbolicTerm_def)
  moreover have "matrix_value ?t = Inr v" using v(1) by (simp add: matrix_value_def)
  moreover have "symbolic ?t = Some \<lparr>coefficient = c, factors = fs', matrix_map = mm'\<rparr>"
    by (simp add: SymbolicTerm_def)
  ultimately show ?thesis using t p(3) by fastforce
qed


theorem from_factors_repeated_qubit_witness:
  "list_all qubit_operator [Atom (Sym (sym_X 0)), Atom (Sym (sym_X 0))]
   \<and> from_factors 1 (Product [Atom (Sym (sym_X 0)), Atom (Sym (sym_X 0))]) None
       = Inr (SymbolicTerm 1 [sym_X 0, sym_X 0] [(0, [pauli_X, pauli_X])])
   \<and> concat (map (factor_matrices 0) [Atom (Sym (sym_X 0)), Atom (Sym (sym_X 0))])
       = [pauli_X, pauli_X]
   \<and> matrix_value (SymbolicTerm 1 [sym_X 0, sym_X 0] [(0, [pauli_X, pauli_X])])
       = Inr (Tensor (eye 2))
   \<and> from_factors 1 (Product [Pow (Sym (sym_X 0)) (Integer 2)]) None
       = Inr (SymbolicTerm 1 [sym_X 0, sym_X 0] [(0, [pauli_X, pauli_X])])
   \<and> ordered_product [pauli_X, pauli_X] = eye 2
   \<and> eye 2 \<noteq> pauli_X"
proof -
  let ?fl = "[Atom (Sym (sym_X 0)), Atom (Sym (sym_X 0))]"
  let ?t = "SymbolicTerm 1 [sym_X 0, sym_X 0] [(0, [pauli_X, pauli_X])]"
  have hyp: "list_all qubit_operator ?fl"
    by (simp add: sym_X_def pauli_X_def)
  have ev: "from_factors 1 (Product ?fl) None = Inr ?t"
    by (simp add: from_factors_def sym_X_def substitute_def)
  have ev2: "from_factors 1 (Product [Pow (Sym (sym_X 0)) (Integer 2)]) None = Inr ?t"
    by (simp add: from_factors_def sym_X_def substitute_def numeral_2_eq_2)
  from from_factors_repeated_qubit [OF hyp, of 1]
  obtain t s where ts: "from_factors 1 (Product ?fl) None = Inr t" "symbolic t = Some s"
    "\<forall>q. recorded (matrix_map s) q = concat (map (factor_matrices q) ?fl)"
    by blast
  from ts(1) ev have "t = ?t" by simp
  with ts(2) have "matrix_map s = [(0, [pauli_X, pauli_X])]"
    by (auto simp: SymbolicTerm_def)
  with ts(3) have rec: "concat (map (factor_matrices 0) ?fl) = [pauli_X, pauli_X]"
    by (metis recorded_def map_of_Cons_code(2) option.simps(5))
  have mv: "matrix_value ?t = Inr (Tensor (eye 2))"
    by code_simp
  have op: "ordered_product [pauli_X, pauli_X] = eye 2"
    by code_simp
  have ne: "eye 2 \<noteq> pauli_X"
    by code_simp
  from hyp ev rec mv ev2 op ne show ?thesis by blast
qed

text \<open>
  Claim C4, where the code departs from it. The symbolic term \<open>X(0)\<close> with coefficient
  1 is built, its matrix is read (and thereby stored), and the term is multiplied by
  2. The matrix of the product is the stored matrix \<open>X\<close> of the receiver, not \<open>2 * X\<close>:
  \<^verbatim>\<open>__mul__\<close> copies \<^verbatim>\<open>_matrix\<close> unscaled.
\<close>

theorem SymbolicTerm_mul_stale_matrix:
  "and_then (from_factors 1 (Product [Atom (Sym (sym_X 0))]) None) (\<lambda>t0.
     and_then (matrix t0) (\<lambda>(m, t1).
       and_then (mul t1 2) (\<lambda>t2.
         and_then (matrix_value t2) (\<lambda>m2.
           and_then (np_scale 2 m) (\<lambda>scaled. Inr (m, m2, scaled))))))
   = Inr (Tensor \<lparr>shape = [2, 2], data = [0, 1, 1, 0]\<rparr>,
          Tensor \<lparr>shape = [2, 2], data = [0, 1, 1, 0]\<rparr>,
          Tensor \<lparr>shape = [2, 2], data = [0, 2, 2, 0]\<rparr>)"
  by code_simp


section \<open>Merging\<close>

subsection \<open>Positions and multi-indices\<close>

lemma length_unravel [simp]: "length (unravel s f) = length s"
  by (induction s arbitrary: f) auto

lemma unravel_bound: "f < prod_list s \<Longrightarrow> list_all2 (<) (unravel s f) s"
proof (induction s arbitrary: f)
  case Nil
  then show ?case by simp
next
  case (Cons d ds)
  from Cons.prems have pos: "0 < prod_list ds"
    by (cases "prod_list ds = 0") auto
  have "f div prod_list ds < d"
    using Cons.prems by (simp add: less_mult_imp_div_less mult.commute)
  moreover have "f mod prod_list ds < prod_list ds" using pos by simp
  ultimately show ?case using Cons.IH by simp
qed

lemma ravel_bound: "list_all2 (<) idx s \<Longrightarrow> ravel s idx < prod_list s"
proof (induction s arbitrary: idx)
  case Nil
  then show ?case by simp
next
  case (Cons d ds)
  then obtain i js where idx: "idx = i # js" "i < d" "list_all2 (<) js ds"
    by (cases idx) auto
  from Cons.IH [OF idx(3)] have r: "ravel ds js < prod_list ds" .
  have "i * prod_list ds + ravel ds js < i * prod_list ds + prod_list ds"
    using r by simp
  also have "\<dots> = Suc i * prod_list ds" by simp
  also have "\<dots> \<le> d * prod_list ds"
    using idx(2) by (intro mult_le_mono1) simp
  finally show ?case by (simp add: idx(1))
qed

lemma ravel_unravel: "f < prod_list s \<Longrightarrow> ravel s (unravel s f) = f"
proof (induction s arbitrary: f)
  case Nil
  then show ?case by simp
next
  case (Cons d ds)
  from Cons.prems have pos: "0 < prod_list ds"
    by (cases "prod_list ds = 0") auto
  then have "ravel ds (unravel ds (f mod prod_list ds)) = f mod prod_list ds"
    by (intro Cons.IH) simp
  then show ?case by simp
qed

lemma unravel_ravel: "list_all2 (<) idx s \<Longrightarrow> unravel s (ravel s idx) = idx"
proof (induction s arbitrary: idx)
  case Nil
  then show ?case by simp
next
  case (Cons d ds)
  then obtain i js where idx: "idx = i # js" "i < d" "list_all2 (<) js ds"
    by (cases idx) auto
  from ravel_bound [OF idx(3)] have r: "ravel ds js < prod_list ds" .
  have "(i * prod_list ds + ravel ds js) div prod_list ds = i"
    using r by simp
  moreover have "(i * prod_list ds + ravel ds js) mod prod_list ds = ravel ds js"
    using r by simp
  ultimately show ?case using Cons.IH [OF idx(3)] by (simp add: idx(1))
qed

lemma ravel_append:
  "length xs = length s \<Longrightarrow>
   ravel (s @ s') (xs @ ys) = ravel s xs * prod_list s' + ravel s' ys"
  by (induction s xs rule: ravel.induct) (auto simp: algebra_simps)

lemma unravel_append:
  assumes "r < prod_list s" "c < prod_list s'"
  shows "unravel (s @ s') (r * prod_list s' + c) = unravel s r @ unravel s' c"
proof -
  have "ravel (s @ s') (unravel s r @ unravel s' c) = r * prod_list s' + c"
    using assms by (simp add: ravel_append ravel_unravel)
  moreover have "list_all2 (<) (unravel s r @ unravel s' c) (s @ s')"
    using assms by (intro list_all2_appendI unravel_bound)
  ultimately show ?thesis
    using unravel_ravel by metis
qed

lemma ravel_inj:
  assumes "list_all2 (<) xs s" "list_all2 (<) ys s" "ravel s xs = ravel s ys"
  shows "xs = ys"
  using assms unravel_ravel by metis


subsection \<open>The order of the axes\<close>

lemma length_merge_order [simp]: "length (merge_order qs tq i) = length qs"
  by (induction qs arbitrary: i) auto

lemma merge_order_nth_in:
  "u < length qs \<Longrightarrow> qs ! u \<in> set tq \<Longrightarrow> merge_order qs tq i ! u = index_of tq (qs ! u)"
proof (induction qs arbitrary: i u)
  case Nil
  then show ?case by simp
next
  case (Cons q qs)
  then show ?case by (cases u) auto
qed

lemma merge_order_nth_out:
  "u < length qs \<Longrightarrow> qs ! u \<notin> set tq \<Longrightarrow>
   merge_order qs tq i ! u = i + length (filter (\<lambda>q. q \<notin> set tq) (take u qs))"
proof (induction qs arbitrary: i u)
  case Nil
  then show ?case by simp
next
  case (Cons q qs)
  then show ?case by (cases u) auto
qed

lemma index_of_less: "x \<in> set xs \<Longrightarrow> index_of xs x < length xs"
  by (induction xs) auto

lemma nth_index_of: "x \<in> set xs \<Longrightarrow> xs ! index_of xs x = x"
  by (induction xs) auto

lemma index_of_nth: "distinct xs \<Longrightarrow> i < length xs \<Longrightarrow> index_of xs (xs ! i) = i"
proof (induction xs arbitrary: i)
  case Nil
  then show ?case by simp
next
  case (Cons x xs)
  then show ?case by (cases i) auto
qed

lemma index_of_append_in: "x \<in> set xs \<Longrightarrow> index_of (xs @ ys) x = index_of xs x"
  by (induction xs) auto

lemma index_of_append_out: "x \<notin> set xs \<Longrightarrow> index_of (xs @ ys) x = length xs + index_of ys x"
  by (induction xs) auto

lemma filter_upt_nth:
  assumes "u < k" "P u"
  shows "filter P [0..<k] ! length (filter P [0..<u]) = u"
    and "length (filter P [0..<u]) < length (filter P [0..<k])"
proof -
  have "[0..<u + (k - u)] = [0..<u] @ [u..<u + (k - u)]"
    by (rule upt_add_eq_append) simp
  moreover have "[u..<k] = u # [Suc u..<k]"
    using assms(1) by (rule upt_conv_Cons)
  ultimately have "[0..<k] = [0..<u] @ u # [Suc u..<k]"
    using assms(1) by simp
  then have f: "filter P [0..<k] = filter P [0..<u] @ u # filter P [Suc u..<k]"
    using assms(2) by simp
  show "filter P [0..<k] ! length (filter P [0..<u]) = u"
    by (simp add: f)
  show "length (filter P [0..<u]) < length (filter P [0..<k])"
    by (simp add: f)
qed

lemma filter_take_upt:
  "u \<le> length qs \<Longrightarrow>
   length (filter P (take u qs)) = length (filter (\<lambda>t. P (qs ! t)) [0..<u])"
proof -
  assume u: "u \<le> length qs"
  have "take u qs = map (\<lambda>t. qs ! t) [0..<u]"
    using u by (intro nth_equalityI) auto
  then show ?thesis by (simp add: filter_map comp_def)
qed


lemma count_inside:
  assumes "distinct qa" "distinct qb" "set qb \<subseteq> set qa"
  shows "length (filter (\<lambda>q. q \<in> set qb) qa) = length qb"
proof -
  have "length (filter (\<lambda>q. q \<in> set qb) qa) = card ({q. q \<in> set qb} \<inter> set qa)"
    using assms(1) by (rule distinct_length_filter)
  also have "{q. q \<in> set qb} \<inter> set qa = set qb" using assms(3) by auto
  also have "card (set qb) = length qb" using assms(2) by (rule distinct_card)
  finally show ?thesis .
qed

lemma count_outside:
  assumes "distinct qa" "distinct qb" "set qb \<subseteq> set qa"
  shows "length (filter (\<lambda>q. q \<notin> set qb) qa) + length qb = length qa"
  using sum_length_filter_compl [of "\<lambda>q. q \<in> set qb" qa] count_inside [OF assms]
  by simp

lemma count_outside_upt:
  assumes "distinct qa" "distinct qb" "set qb \<subseteq> set qa"
  shows "length (filter (\<lambda>t. qa ! t \<notin> set qb) [0..<length qa]) + length qb = length qa"
  using count_outside [OF assms] filter_take_upt [of "length qa" qa "\<lambda>q. q \<notin> set qb"]
  by simp

lemma merge_order_bound:
  assumes "distinct qa" "distinct qb" "set qb \<subseteq> set qa" "u < length qa"
  shows "merge_order qa qb (length qb) ! u < length qa"
proof (cases "qa ! u \<in> set qb")
  case True
  then have "merge_order qa qb (length qb) ! u = index_of qb (qa ! u)"
    using assms(4) by (simp add: merge_order_nth_in)
  also have "\<dots> < length qb" using True by (rule index_of_less)
  also have "\<dots> \<le> length qa" using count_outside [OF assms(1-3)] by simp
  finally show ?thesis .
next
  case False
  let ?P = "\<lambda>t. qa ! t \<notin> set qb"
  have "merge_order qa qb (length qb) ! u
      = length qb + length (filter (\<lambda>q. q \<notin> set qb) (take u qa))"
    using assms(4) False by (simp add: merge_order_nth_out)
  also have "\<dots> = length qb + length (filter ?P [0..<u])"
    using assms(4) by (simp add: filter_take_upt)
  also have "\<dots> < length qb + length (filter ?P [0..<length qa])"
    using filter_upt_nth(2) [of u "length qa" ?P] assms(4) False by simp
  also have "\<dots> = length qa" using count_outside_upt [OF assms(1-3)] by simp
  finally show ?thesis .
qed

lemma length_arranged:
  assumes "distinct qa" "distinct qb" "set qb \<subseteq> set qa"
  shows "length (arranged qa qb xs) = length qa"
  using count_outside_upt [OF assms] by (simp add: arranged_def)

lemma arranged_nth:
  assumes "distinct qa" "u < length qa"
  shows "arranged qa qb xs ! (merge_order qa qb (length qb) ! u) = xs ! u"
proof (cases "qa ! u \<in> set qb")
  case True
  have o: "merge_order qa qb (length qb) ! u = index_of qb (qa ! u)"
    using assms(2) True by (simp add: merge_order_nth_in)
  have lt: "index_of qb (qa ! u) < length qb" using True by (rule index_of_less)
  have "arranged qa qb xs ! index_of qb (qa ! u)
      = xs ! index_of qa (qb ! index_of qb (qa ! u))"
    using lt by (simp add: arranged_def nth_append)
  also have "\<dots> = xs ! u"
    using True assms by (simp add: nth_index_of index_of_nth)
  finally show ?thesis by (simp add: o)
next
  case False
  let ?P = "\<lambda>t. qa ! t \<notin> set qb"
  let ?j = "length (filter ?P [0..<u])"
  have o: "merge_order qa qb (length qb) ! u = length qb + ?j"
    using assms(2) False by (simp add: merge_order_nth_out filter_take_upt)
  have j: "?j < length (filter ?P [0..<length qa])" "filter ?P [0..<length qa] ! ?j = u"
    using filter_upt_nth [of u "length qa" ?P] assms(2) False by simp_all
  have "arranged qa qb xs ! (length qb + ?j) = xs ! (filter ?P [0..<length qa] ! ?j)"
    using j(1) by (simp add: arranged_def nth_append)
  then show ?thesis by (simp add: o j(2))
qed

lemma merge_order_onto:
  assumes "distinct qa" "distinct qb" "set qb \<subseteq> set qa" "t < length qa"
  shows "\<exists>u<length qa. merge_order qa qb (length qb) ! u = t"
proof (cases "t < length qb")
  case True
  let ?u = "index_of qa (qb ! t)"
  have mem: "qb ! t \<in> set qa" using True assms(3) by auto
  then have u: "?u < length qa" by (rule index_of_less)
  have q: "qa ! ?u = qb ! t" using mem by (rule nth_index_of)
  then have "merge_order qa qb (length qb) ! ?u = index_of qb (qb ! t)"
    using u True by (simp add: merge_order_nth_in)
  also have "\<dots> = t" using assms(2) True by (rule index_of_nth)
  finally show ?thesis using u by blast
next
  case False
  let ?P = "\<lambda>t. qa ! t \<notin> set qb"
  let ?F = "filter ?P [0..<length qa]"
  let ?j = "t - length qb"
  have j: "?j < length ?F"
    using count_outside_upt [OF assms(1-3)] assms(4) False by simp
  let ?u = "?F ! ?j"
  have "?u \<in> set ?F" using j by (rule nth_mem)
  then have u: "?u < length qa" "?P ?u" by auto
  have "?F ! length (filter ?P [0..<?u]) = ?u" "length (filter ?P [0..<?u]) < length ?F"
    using filter_upt_nth [of ?u "length qa" ?P] u by simp_all
  moreover have "distinct ?F" by simp
  ultimately have "length (filter ?P [0..<?u]) = ?j"
    using j nth_eq_iff_index_eq by blast
  then have "merge_order qa qb (length qb) ! ?u = length qb + ?j"
    using u by (simp add: merge_order_nth_out filter_take_upt)
  then show ?thesis using u(1) False by auto
qed

lemma merge_order_set:
  assumes "distinct qa" "distinct qb" "set qb \<subseteq> set qa"
  shows "set (merge_order qa qb (length qb)) = {0..<length qa}"
proof
  show "set (merge_order qa qb (length qb)) \<subseteq> {0..<length qa}"
    using merge_order_bound [OF assms] by (auto simp: in_set_conv_nth)
  show "{0..<length qa} \<subseteq> set (merge_order qa qb (length qb))"
  proof
    fix t assume "t \<in> {0..<length qa}"
    then have "t < length qa" by simp
    from merge_order_onto [OF assms this] show "t \<in> set (merge_order qa qb (length qb))"
      by (auto simp: in_set_conv_nth)
  qed
qed

lemma merge_order_distinct:
  assumes "distinct qa" "distinct qb" "set qb \<subseteq> set qa"
  shows "distinct (merge_order qa qb (length qb))"
proof (rule card_distinct)
  show "card (set (merge_order qa qb (length qb))) = length (merge_order qa qb (length qb))"
    by (simp add: merge_order_set [OF assms])
qed

lemma inverse_arrangement:
  assumes "\<forall>t<n. t \<in> set axes" "length l = n" "\<forall>u<length axes. l ! (axes ! u) = xs ! u"
  shows "map (\<lambda>t. xs ! index_of axes t) [0..<n] = l"
proof (rule nth_equalityI)
  show "length (map (\<lambda>t. xs ! index_of axes t) [0..<n]) = length l"
    using assms(2) by simp
next
  fix t assume "t < length (map (\<lambda>t. xs ! index_of axes t) [0..<n])"
  then have t: "t < n" by simp
  then have mem: "t \<in> set axes" using assms(1) by simp
  have "l ! (axes ! index_of axes t) = xs ! index_of axes t"
    using assms(3) index_of_less [OF mem] by simp
  then show "map (\<lambda>t. xs ! index_of axes t) [0..<n] ! t = l ! t"
    using t by (simp add: nth_index_of [OF mem])
qed


subsection \<open>Arrays of two axes\<close>

lemma grid_as_map:
  "concat (map (\<lambda>i. map (g i) [0..<n]) [0..<m]) = map (\<lambda>f. g (f div n) (f mod n)) [0..<m * n]"
proof (induction m)
  case 0
  then show ?case by simp
next
  case (Suc m)
  have "[0..<m * n + n] = [0..<m * n] @ [m * n..<m * n + n]"
    by (rule upt_add_eq_append) simp
  moreover have "map (\<lambda>f. g (f div n) (f mod n)) [m * n..<m * n + n] = map (g m) [0..<n]"
  proof -
    have "[m * n..<n + m * n] = map (\<lambda>i. i + m * n) [0..<n]"
      by (rule map_add_upt [symmetric])
    then have "map (\<lambda>f. g (f div n) (f mod n)) [m * n..<n + m * n]
        = map (\<lambda>j. g ((j + m * n) div n) ((j + m * n) mod n)) [0..<n]"
      by (simp only: map_map comp_def)
    also have "\<dots> = map (g m) [0..<n]"
      by (rule map_cong) auto
    finally show ?thesis by (simp add: add.commute)
  qed
  ultimately show ?case using Suc.IH by (simp add: add.commute)
qed

lemma unravel_two: "unravel [n, p] f = [f div p, f mod p]"
  by simp

lemma nd_kron_two:
  assumes "shape a = [ra, ca]" "shape b = [rb, cb]"
  shows "nd_kron a b =
     \<lparr>shape = [ra * rb, ca * cb],
      data = map (\<lambda>f. data a ! ((f div (ca * cb)) div rb * ca + (f mod (ca * cb)) div cb)
                     * data b ! ((f div (ca * cb)) mod rb * cb + (f mod (ca * cb)) mod cb))
                 [0..<ra * rb * (ca * cb)]\<rparr>"
  by (simp add: nd_kron_def assms pad_shape_def Let_def)

lemma eye_data: "data (eye n) = map (\<lambda>f. if f div n = f mod n then 1 else 0) [0..<n * n]"
  by (simp add: eye_def grid_as_map)

lemma div_mod_pair:
  fixes q :: nat
  assumes "c < q"
  shows "(r * q + c) div q = r" "(r * q + c) mod q = c"
  using assms by simp_all

lemma pair_bound:
  fixes q :: nat
  assumes "r < p" "c < q"
  shows "r * q + c < p * q"
proof -
  have "r * q + c < r * q + q" using assms(2) by simp
  also have "\<dots> = Suc r * q" by simp
  also have "\<dots> \<le> p * q" using assms(1) by (intro mult_le_mono1) simp
  finally show ?thesis .
qed

lemma kron_eye_entry:
  assumes "shape b = [p, p]" "0 < n" "r < p * n" "c < p * n"
  shows "data (nd_kron b (eye n)) ! (r * (p * n) + c)
       = (if r mod n = c mod n then data b ! (r div n * p + c div n) else 0)"
proof -
  define q where "q = p * n"
  have sh: "shape (eye n) = [n, n]" by (simp add: eye_def)
  have rc: "r < q" "c < q" using assms(3,4) by (simp_all add: q_def)
  have lt: "r * q + c < q * q" using rc by (rule pair_bound)
  have d: "(r * q + c) div q = r" "(r * q + c) mod q = c"
    using rc(2) by (rule div_mod_pair)+
  have m: "r mod n < n" "c mod n < n" using assms(2) by simp_all
  have e: "r mod n * n + c mod n < n * n" using m by (rule pair_bound)
  have ed: "(r mod n * n + c mod n) div n = r mod n" "(r mod n * n + c mod n) mod n = c mod n"
    using m(2) by (rule div_mod_pair)+
  have ey: "data (eye n) ! (r mod n * n + c mod n) = (if r mod n = c mod n then 1 else 0)"
    using e by (simp add: eye_data ed)
  have "data (nd_kron b (eye n)) ! (r * q + c)
      = data b ! ((r * q + c) div q div n * p + (r * q + c) mod q div n)
        * data (eye n) ! ((r * q + c) div q mod n * n + (r * q + c) mod q mod n)"
    using lt by (simp add: nd_kron_two [OF assms(1) sh] q_def)
  also have "\<dots> = data b ! (r div n * p + c div n) * data (eye n) ! (r mod n * n + c mod n)"
    by (simp only: d)
  also have "\<dots> = (if r mod n = c mod n then data b ! (r div n * p + c div n) else 0)"
    by (simp add: ey)
  finally show ?thesis by (simp add: q_def)
qed

lemma kron_eye_shape:
  assumes "shape b = [p, p]"
  shows "shape (nd_kron b (eye n)) = [p * n, p * n]"
    and "length (data (nd_kron b (eye n))) = p * n * (p * n)"
proof -
  have sh: "shape (eye n) = [n, n]" by (simp add: eye_def)
  show "shape (nd_kron b (eye n)) = [p * n, p * n]"
    by (simp add: nd_kron_two [OF assms sh])
  show "length (data (nd_kron b (eye n))) = p * n * (p * n)"
    by (simp add: nd_kron_two [OF assms sh])
qed


subsection \<open>Bits of an index\<close>

lemma prod_list_twos [simp]: "prod_list (replicate k (2::nat)) = 2 ^ k"
  by (induction k) auto

lemma bit_under_mod:
  fixes r :: nat
  assumes "j < k"
  shows "(r mod 2 ^ k) div 2 ^ j mod 2 = r div 2 ^ j mod 2"
proof -
  have "bit (take_bit k r) j = bit r j"
    using assms by (simp add: bit_take_bit_iff)
  then have "odd ((r mod 2 ^ k) div 2 ^ j) = odd (r div 2 ^ j)"
    by (simp add: bit_iff_odd take_bit_eq_mod)
  then show ?thesis
    by (simp add: mod2_eq_if)
qed

lemma unravel_bit:
  "r < 2 ^ k \<Longrightarrow> t < k \<Longrightarrow> unravel (replicate k 2) r ! t = bit_at k r t"
proof (induction k arbitrary: r t)
  case 0
  then show ?case by simp
next
  case (Suc k)
  show ?case
  proof (cases t)
    case 0
    have "r div 2 ^ k < 2"
      using Suc.prems(1) by (simp add: less_mult_imp_div_less)
    then show ?thesis by (simp add: 0 bit_at_def)
  next
    case (Suc t')
    then have t': "t' < k" using Suc.prems(2) by simp
    have "unravel (replicate k 2) (r mod 2 ^ k) ! t' = bit_at k (r mod 2 ^ k) t'"
      using t' by (intro Suc.IH) simp_all
    also have "\<dots> = bit_at (Suc k) r t"
      using t' by (simp add: bit_at_def Suc bit_under_mod)
    finally show ?thesis by (simp add: Suc)
  qed
qed

lemma foldl_binary:
  "foldl (\<lambda>acc x. 2 * acc + x) a xs = a * 2 ^ length xs + ravel (replicate (length xs) 2) xs"
  by (induction xs arbitrary: a) (auto simp: algebra_simps)


lemma below_twos:
  "list_all2 (<) xs (replicate k (2::nat)) \<longleftrightarrow> length xs = k \<and> (\<forall>x\<in>set xs. x < 2)"
  by (auto simp: list_all2_conv_all_nth all_set_conv_all_nth)

lemma unravel_bits:
  assumes "r < 2 ^ k"
  shows "length (unravel (replicate k 2) r) = k" "\<forall>x\<in>set (unravel (replicate k 2) r). x < 2"
proof -
  have "list_all2 (<) (unravel (replicate k 2) r) (replicate k 2)"
    using assms by (intro unravel_bound) simp
  then show "length (unravel (replicate k 2) r) = k"
    "\<forall>x\<in>set (unravel (replicate k 2) r). x < 2"
    by (simp_all add: below_twos)
qed

lemma arranged_ravel:
  assumes "distinct qa" "distinct qb" "set qb \<subseteq> set qa"
    and "length xs = length qa" "\<forall>x\<in>set xs. x < 2"
  shows "ravel (replicate (length qa) 2) (arranged qa qb xs)
       = ravel (replicate (length qb) 2) (map (\<lambda>q. xs ! index_of qa q) qb)
           * 2 ^ (length qa - length qb)
         + ravel (replicate (length qa - length qb) 2)
             (map (\<lambda>t. xs ! t) (filter (\<lambda>t. qa ! t \<notin> set qb) [0..<length qa]))"
    and "ravel (replicate (length qa - length qb) 2)
             (map (\<lambda>t. xs ! t) (filter (\<lambda>t. qa ! t \<notin> set qb) [0..<length qa]))
         < 2 ^ (length qa - length qb)"
    and "ravel (replicate (length qa) 2) (arranged qa qb xs) < 2 ^ length qa"
proof -
  let ?F = "filter (\<lambda>t. qa ! t \<notin> set qb) [0..<length qa]"
  have cnt: "length ?F + length qb = length qa"
    using assms(1-3) by (rule count_outside_upt)
  then have split: "replicate (length qa) (2::nat)
      = replicate (length qb) 2 @ replicate (length qa - length qb) 2"
    by (metis add.commute add_diff_cancel_right' replicate_add)
  show "ravel (replicate (length qa) 2) (arranged qa qb xs)
       = ravel (replicate (length qb) 2) (map (\<lambda>q. xs ! index_of qa q) qb)
           * 2 ^ (length qa - length qb)
         + ravel (replicate (length qa - length qb) 2) (map (\<lambda>t. xs ! t) ?F)"
    unfolding arranged_def split by (subst ravel_append) simp_all
  have "\<forall>x\<in>set (map (\<lambda>t. xs ! t) ?F). x < 2"
    using assms(4,5) by auto
  moreover have "length (map (\<lambda>t. xs ! t) ?F) = length qa - length qb"
    using cnt by simp
  ultimately have "list_all2 (<) (map (\<lambda>t. xs ! t) ?F) (replicate (length qa - length qb) 2)"
    by (simp only: below_twos)
  from ravel_bound [OF this]
  show "ravel (replicate (length qa - length qb) 2) (map (\<lambda>t. xs ! t) ?F)
         < 2 ^ (length qa - length qb)"
    by simp
  have "\<forall>x\<in>set (arranged qa qb xs). x < 2"
  proof
    fix x assume "x \<in> set (arranged qa qb xs)"
    then consider q where "q \<in> set qb" "x = xs ! index_of qa q"
      | t where "t < length qa" "x = xs ! t"
      by (auto simp: arranged_def)
    then show "x < 2"
    proof cases
      case 1
      then have "index_of qa q < length xs"
        using assms(3,4) index_of_less [of q qa] by auto
      with 1 assms(5) show ?thesis by simp
    next
      case 2
      with assms(4,5) show ?thesis by simp
    qed
  qed
  then have "list_all2 (<) (arranged qa qb xs) (replicate (length qa) 2)"
    using length_arranged [OF assms(1-3), of xs] by (simp only: below_twos)
  from ravel_bound [OF this]
  show "ravel (replicate (length qa) 2) (arranged qa qb xs) < 2 ^ length qa"
    by simp
qed

lemma transposed_source:
  assumes "distinct qa" "distinct qb" "set qb \<subseteq> set qa"
    and "length xs = length qa" "length ys = length qa"
  shows "map (\<lambda>t. (xs @ ys) ! index_of
             (merge_order qa qb (length qb)
              @ map (\<lambda>x. x + length qa) (merge_order qa qb (length qb))) t)
           [0..<2 * length qa]
       = arranged qa qb xs @ arranged qa qb ys"
proof (rule inverse_arrangement)
  let ?o = "merge_order qa qb (length qb)"
  let ?k = "length qa"
  have set_o: "set ?o = {0..<?k}" using assms(1-3) by (rule merge_order_set)
  show "\<forall>t<2 * ?k. t \<in> set (?o @ map (\<lambda>x. x + ?k) ?o)"
  proof (intro allI impI)
    fix t assume t: "t < 2 * ?k"
    show "t \<in> set (?o @ map (\<lambda>x. x + ?k) ?o)"
    proof (cases "t < ?k")
      case True
      then show ?thesis by (simp add: set_o)
    next
      case False
      then have "t - ?k \<in> set ?o" "t = (t - ?k) + ?k" using t by (simp_all add: set_o)
      then show ?thesis by (metis UnI2 image_eqI set_append set_map)
    qed
  qed
  show "length (arranged qa qb xs @ arranged qa qb ys) = 2 * ?k"
    by (simp add: length_arranged [OF assms(1-3)])
  show "\<forall>u<length (?o @ map (\<lambda>x. x + ?k) ?o).
          (arranged qa qb xs @ arranged qa qb ys) ! ((?o @ map (\<lambda>x. x + ?k) ?o) ! u)
          = (xs @ ys) ! u"
  proof (intro allI impI)
    fix u assume "u < length (?o @ map (\<lambda>x. x + ?k) ?o)"
    then have u: "u < 2 * ?k" by simp
    show "(arranged qa qb xs @ arranged qa qb ys) ! ((?o @ map (\<lambda>x. x + ?k) ?o) ! u)
          = (xs @ ys) ! u"
    proof (cases "u < ?k")
      case True
      then have "?o ! u < ?k" using merge_order_bound [OF assms(1-3)] by simp
      then show ?thesis
        using True assms(4)
        by (simp add: nth_append length_arranged [OF assms(1-3)] arranged_nth [OF assms(1)])
    next
      case False
      then have v: "u - ?k < ?k" using u by simp
      have "(?o @ map (\<lambda>x. x + ?k) ?o) ! u = ?o ! (u - ?k) + ?k"
        using False v by (simp add: nth_append)
      then show ?thesis
        using False v assms(4,5)
        by (simp add: nth_append length_arranged [OF assms(1-3)] arranged_nth [OF assms(1)])
    qed
  qed
qed


lemma sub_index_ravel:
  assumes "set qb \<subseteq> set qa" "r < 2 ^ length qa"
  shows "sub_index qa qb r
       = ravel (replicate (length qb) 2)
           (map (\<lambda>q. unravel (replicate (length qa) 2) r ! index_of qa q) qb)"
proof -
  have "map (\<lambda>q. bit_at (length qa) r (index_of qa q)) qb
      = map (\<lambda>q. unravel (replicate (length qa) 2) r ! index_of qa q) qb"
    using assms by (intro map_cong refl) (simp add: unravel_bit index_of_less subset_iff)
  then have "ravel (replicate (length qb) 2)
        (map (\<lambda>q. bit_at (length qa) r (index_of qa q)) qb)
      = ravel (replicate (length qb) 2)
        (map (\<lambda>q. unravel (replicate (length qa) 2) r ! index_of qa q) qb)"
    by (rule arg_cong)
  moreover have "sub_index qa qb r
      = foldl (\<lambda>acc x. 2 * acc + x) 0 (map (\<lambda>q. bit_at (length qa) r (index_of qa q)) qb)"
    by (simp add: sub_index_def foldl_map)
  moreover have "foldl (\<lambda>acc x. 2 * acc + x) 0
        (map (\<lambda>q. bit_at (length qa) r (index_of qa q)) qb)
      = ravel (replicate (length qb) 2) (map (\<lambda>q. bit_at (length qa) r (index_of qa q)) qb)"
    by (simp add: foldl_binary)
  ultimately show ?thesis by (simp only:)
qed

lemma off_support_equal_iff:
  assumes "r < 2 ^ length qa" "c < 2 ^ length qa"
  shows "off_support_equal qa qb r c
     \<longleftrightarrow> map (\<lambda>t. unravel (replicate (length qa) 2) r ! t)
             (filter (\<lambda>t. qa ! t \<notin> set qb) [0..<length qa])
         = map (\<lambda>t. unravel (replicate (length qa) 2) c ! t)
             (filter (\<lambda>t. qa ! t \<notin> set qb) [0..<length qa])"
  using assms by (auto simp: off_support_equal_def list_all_iff unravel_bit)

lemma embedded_entry:
  assumes dq: "distinct qa" "distinct qb" "set qb \<subseteq> set qa"
    and sb: "shape b = [2 ^ length qb, 2 ^ length qb]"
    and rc: "r < 2 ^ length qa" "c < 2 ^ length qa"
  shows "data (nd_kron b (eye (2 ^ (length qa - length qb))))
           ! ravel (replicate (2 * length qa) 2)
               (map (\<lambda>t. unravel (replicate (2 * length qa) 2) (r * 2 ^ length qa + c)
                            ! index_of (merge_order qa qb (length qb)
                                        @ map (\<lambda>x. x + length qa)
                                            (merge_order qa qb (length qb))) t)
                    [0..<2 * length qa])
       = (if off_support_equal qa qb r c
          then data b ! (sub_index qa qb r * 2 ^ length qb + sub_index qa qb c)
          else 0)"
proof -
  define k where "k = length qa"
  define m where "m = length qb"
  define br where "br = unravel (replicate k 2) r"
  define bc where "bc = unravel (replicate k 2) c"
  define F where "F = filter (\<lambda>t. qa ! t \<notin> set qb) [0..<k]"
  have mk: "m \<le> k" using count_outside [OF dq] by (simp add: k_def m_def)
  have pw: "(2::nat) ^ k = 2 ^ m * 2 ^ (k - m)"
    using mk by (simp flip: power_add)
  have twice: "replicate (2 * k) (2::nat) = replicate k 2 @ replicate k 2"
    by (simp add: mult_2 replicate_add)
  have lbr: "length br = k" "\<forall>x\<in>set br. x < 2" and lbc: "length bc = k" "\<forall>x\<in>set bc. x < 2"
    using unravel_bits rc by (simp_all add: br_def bc_def k_def)
  have U: "unravel (replicate (2 * k) 2) (r * 2 ^ k + c) = br @ bc"
    unfolding twice br_def bc_def
    using unravel_append [of r "replicate k 2" c "replicate k 2"] rc
    by (simp add: k_def)
  have src: "map (\<lambda>t. (br @ bc) ! index_of (merge_order qa qb m
                 @ map (\<lambda>x. x + k) (merge_order qa qb m)) t) [0..<2 * k]
      = arranged qa qb br @ arranged qa qb bc"
    unfolding k_def m_def
    by (rule transposed_source [OF dq]) (simp_all add: lbr lbc flip: k_def)
  define r' where "r' = ravel (replicate k 2) (arranged qa qb br)"
  define c' where "c' = ravel (replicate k 2) (arranged qa qb bc)"
  have rv: "ravel (replicate (2 * k) 2) (arranged qa qb br @ arranged qa qb bc)
      = r' * 2 ^ k + c'"
    unfolding twice r'_def c'_def
    by (subst ravel_append) (simp_all add: length_arranged [OF dq] k_def)
  have r'1: "r' = sub_index qa qb r * 2 ^ (k - m) + ravel (replicate (k - m) 2) (map (\<lambda>t. br ! t) F)"
    and r'2: "ravel (replicate (k - m) 2) (map (\<lambda>t. br ! t) F) < 2 ^ (k - m)"
    and r'3: "r' < 2 ^ k"
    using arranged_ravel [OF dq, of br] lbr sub_index_ravel [OF dq(3) rc(1)]
    by (simp_all add: r'_def k_def m_def F_def br_def)
  have c'1: "c' = sub_index qa qb c * 2 ^ (k - m) + ravel (replicate (k - m) 2) (map (\<lambda>t. bc ! t) F)"
    and c'2: "ravel (replicate (k - m) 2) (map (\<lambda>t. bc ! t) F) < 2 ^ (k - m)"
    and c'3: "c' < 2 ^ k"
    using arranged_ravel [OF dq, of bc] lbc sub_index_ravel [OF dq(3) rc(2)]
    by (simp_all add: c'_def k_def m_def F_def bc_def)
  have rd: "r' div 2 ^ (k - m) = sub_index qa qb r"
    "r' mod 2 ^ (k - m) = ravel (replicate (k - m) 2) (map (\<lambda>t. br ! t) F)"
    unfolding r'1 using r'2 by (rule div_mod_pair)+
  have cd: "c' div 2 ^ (k - m) = sub_index qa qb c"
    "c' mod 2 ^ (k - m) = ravel (replicate (k - m) 2) (map (\<lambda>t. bc ! t) F)"
    unfolding c'1 using c'2 by (rule div_mod_pair)+
  have lenF: "length F = k - m"
    using count_outside_upt [OF dq] by (simp add: F_def k_def m_def)
  have below: "list_all2 (<) (map (\<lambda>t. br ! t) F) (replicate (k - m) 2)"
    "list_all2 (<) (map (\<lambda>t. bc ! t) F) (replicate (k - m) 2)"
    using lbr lbc lenF by (auto simp: below_twos F_def)
  have agree: "(ravel (replicate (k - m) 2) (map (\<lambda>t. br ! t) F)
        = ravel (replicate (k - m) 2) (map (\<lambda>t. bc ! t) F))
      = off_support_equal qa qb r c"
  proof -
    have "(ravel (replicate (k - m) 2) (map (\<lambda>t. br ! t) F)
        = ravel (replicate (k - m) 2) (map (\<lambda>t. bc ! t) F))
        = (map (\<lambda>t. br ! t) F = map (\<lambda>t. bc ! t) F)"
      by (metis ravel_inj [OF below])
    also have "\<dots> = off_support_equal qa qb r c"
      using off_support_equal_iff [OF rc, of qb] by (simp add: F_def br_def bc_def k_def)
    finally show ?thesis .
  qed
  have "data (nd_kron b (eye (2 ^ (k - m)))) ! (r' * (2 ^ m * 2 ^ (k - m)) + c')
      = (if r' mod 2 ^ (k - m) = c' mod 2 ^ (k - m)
         then data b ! (r' div 2 ^ (k - m) * 2 ^ m + c' div 2 ^ (k - m)) else 0)"
    using sb r'3 c'3 by (intro kron_eye_entry) (simp_all add: m_def pw)
  then have "data (nd_kron b (eye (2 ^ (k - m)))) ! (r' * 2 ^ k + c')
      = (if off_support_equal qa qb r c
         then data b ! (sub_index qa qb r * 2 ^ m + sub_index qa qb c) else 0)"
    by (simp only: rd cd agree pw)
  then show ?thesis
    using U src rv by (simp add: k_def m_def)
qed


subsection \<open>Addition\<close>

lemma broadcast_index_id: "list_all2 (<) idx s \<Longrightarrow> broadcast_index s idx = idx"
  unfolding broadcast_index_def
  by (induction idx s rule: list_all2_induct) auto

lemma map2_same: "map2 f s s = map (\<lambda>d. f d d) s"
  by (induction s) auto

lemma nd_add_same_shape:
  assumes "shape a = s" "shape b = s" "length (data a) = prod_list s"
    "length (data b) = prod_list s"
  shows "nd_add a b = Inr (mat_add a b)"
proof -
  have ok: "broadcast_ok s s"
    by (simp add: broadcast_ok_def list_all2_same)
  have rs: "map2 (\<lambda>d e. if d = Suc 0 then e else d) s s = s"
    by (simp add: map2_same)
  have "map (\<lambda>f. data a ! ravel s (broadcast_index s (unravel s f))
                 + data b ! ravel s (broadcast_index s (unravel s f))) [0..<prod_list s]
      = map2 (+) (data a) (data b)"
  proof (rule nth_equalityI)
    show "length (map (\<lambda>f. data a ! ravel s (broadcast_index s (unravel s f))
                 + data b ! ravel s (broadcast_index s (unravel s f))) [0..<prod_list s])
        = length (map2 (+) (data a) (data b))"
      using assms(3,4) by simp
  next
    fix f
    assume "f < length (map (\<lambda>f. data a ! ravel s (broadcast_index s (unravel s f))
                 + data b ! ravel s (broadcast_index s (unravel s f))) [0..<prod_list s])"
    then have f: "f < prod_list s" by simp
    then have "ravel s (broadcast_index s (unravel s f)) = f"
      by (simp add: broadcast_index_id unravel_bound ravel_unravel)
    then show "map (\<lambda>f. data a ! ravel s (broadcast_index s (unravel s f))
                 + data b ! ravel s (broadcast_index s (unravel s f))) [0..<prod_list s] ! f
        = map2 (+) (data a) (data b) ! f"
      using f assms(3,4) by simp
  qed
  then show ?thesis
    using ok by (simp add: nd_add_def assms(1,2) pad_shape_def rs mat_add_def Let_def)
qed

subsection \<open>The merged matrix\<close>

lemma embed_as_map:
  "embed qa qb b =
     \<lparr>shape = [2 ^ length qa, 2 ^ length qa],
      data = map (\<lambda>f. if off_support_equal qa qb (f div 2 ^ length qa) (f mod 2 ^ length qa)
                      then data b ! (sub_index qa qb (f div 2 ^ length qa) * 2 ^ length qb
                                     + sub_index qa qb (f mod 2 ^ length qa))
                      else 0)
                 [0..<2 ^ length qa * 2 ^ length qa]\<rparr>"
  by (simp add: embed_def Let_def grid_as_map)

lemma merge_order2:
  assumes "distinct qa" "distinct qb" "set qb \<subseteq> set qa"
  shows "distinct (merge_order qa qb (length qb)
                   @ map (\<lambda>x. x + length qa) (merge_order qa qb (length qb)))"
    and "list_all (\<lambda>x. x < 2 * length qa)
           (merge_order qa qb (length qb)
            @ map (\<lambda>x. x + length qa) (merge_order qa qb (length qb)))"
proof -
  let ?o = "merge_order qa qb (length qb)"
  have set_o: "set ?o = {0..<length qa}" using assms by (rule merge_order_set)
  have d: "distinct ?o" using assms by (rule merge_order_distinct)
  have "distinct (map (\<lambda>x. x + length qa) ?o)"
    using d by (simp add: distinct_map inj_on_def)
  moreover have "set ?o \<inter> set (map (\<lambda>x. x + length qa) ?o) = {}"
    by (auto simp: set_o)
  ultimately show "distinct (?o @ map (\<lambda>x. x + length qa) ?o)"
    using d by simp
  show "list_all (\<lambda>x. x < 2 * length qa) (?o @ map (\<lambda>x. x + length qa) ?o)"
    by (auto simp: list_all_iff set_o)
qed

lemma np_transpose_permutation:
  assumes "length axes = length s" "distinct axes" "list_all (\<lambda>x. x < length s) axes"
    and "map (\<lambda>t. s ! t) axes = s'"
  shows "np_transpose \<lparr>shape = s, data = d\<rparr> axes
       = Inr \<lparr>shape = s',
              data = map (\<lambda>f. d ! ravel s (map (\<lambda>t. unravel s' f ! index_of axes t)
                                             [0..<length s]))
                         [0..<prod_list s']\<rparr>"
  using assms by (simp add: np_transpose_def Let_def)

lemma transposed_embed:
  assumes dq: "distinct qa" "distinct qb" "set qb \<subseteq> set qa"
    and sb: "shape b = [2 ^ length qb, 2 ^ length qb]"
  shows "np_transpose
           \<lparr>shape = replicate (2 * length qa) 2,
            data = data (nd_kron b (eye (2 ^ (length qa - length qb))))\<rparr>
           (merge_order qa qb (length qb)
            @ map (\<lambda>x. x + length qa) (merge_order qa qb (length qb)))
       = Inr \<lparr>shape = replicate (2 * length qa) 2, data = data (embed qa qb b)\<rparr>"
proof -
  let ?o2 = "merge_order qa qb (length qb)
             @ map (\<lambda>x. x + length qa) (merge_order qa qb (length qb))"
  let ?S = "replicate (2 * length qa) (2::nat)"
  let ?P = "data (nd_kron b (eye (2 ^ (length qa - length qb))))"
  let ?N = "(2::nat) ^ length qa"
  have sh: "map (\<lambda>t. ?S ! t) ?o2 = ?S"
  proof -
    have "\<forall>x\<in>set ?o2. x < 2 * length qa"
      using merge_order2(2) [OF dq] by (simp only: list_all_iff)
    then have "map (\<lambda>t. ?S ! t) ?o2 = map (\<lambda>t. 2) ?o2"
      by (intro map_cong refl) simp
    also have "\<dots> = replicate (length ?o2) 2"
      by (rule map_replicate_const)
    also have "length ?o2 = 2 * length qa" by simp
    finally show ?thesis .
  qed
  have pr: "prod_list ?S = ?N * ?N"
    by (simp add: mult_2 power_add)
  have "map (\<lambda>f. ?P ! ravel ?S (map (\<lambda>t. unravel ?S f ! index_of ?o2 t) [0..<2 * length qa]))
          [0..<?N * ?N]
      = data (embed qa qb b)"
    unfolding embed_as_map
  proof (simp only: ndarray.simps, rule map_cong [OF refl])
    fix f assume "f \<in> set [0..<?N * ?N]"
    then have f: "f < ?N * ?N" by simp
    then have r: "f div ?N < ?N" by (simp add: less_mult_imp_div_less)
    have c: "f mod ?N < ?N" by simp
    have "?P ! ravel ?S (map (\<lambda>t. unravel ?S (f div ?N * ?N + f mod ?N) ! index_of ?o2 t)
            [0..<2 * length qa])
        = (if off_support_equal qa qb (f div ?N) (f mod ?N)
           then data b ! (sub_index qa qb (f div ?N) * 2 ^ length qb
                          + sub_index qa qb (f mod ?N))
           else 0)"
      using dq sb r c by (rule embedded_entry)
    moreover have "f div ?N * ?N + f mod ?N = f" by (rule div_mult_mod_eq)
    ultimately show "?P ! ravel ?S (map (\<lambda>t. unravel ?S f ! index_of ?o2 t) [0..<2 * length qa])
        = (if off_support_equal qa qb (f div ?N) (f mod ?N)
           then data b ! (sub_index qa qb (f div ?N) * 2 ^ length qb
                          + sub_index qa qb (f mod ?N))
           else 0)"
      by (simp only:)
  qed
  then have "\<lparr>shape = ?S,
         data = map (\<lambda>f. ?P ! ravel ?S (map (\<lambda>t. unravel ?S f ! index_of ?o2 t)
                                            [0..<length ?S]))
                    [0..<prod_list ?S]\<rparr>
      = \<lparr>shape = ?S, data = data (embed qa qb b)\<rparr>"
    by (simp only: pr length_replicate)
  moreover have "np_transpose \<lparr>shape = ?S, data = ?P\<rparr> ?o2
      = Inr \<lparr>shape = ?S,
         data = map (\<lambda>f. ?P ! ravel ?S (map (\<lambda>t. unravel ?S f ! index_of ?o2 t)
                                            [0..<length ?S]))
                    [0..<prod_list ?S]\<rparr>"
    using merge_order2 [OF dq] sh by (intro np_transpose_permutation) simp_all
  ultimately show ?thesis by (simp only:)
qed


lemma embed_square: "square (2 ^ length qa) (embed qa qb b)"
  by (simp add: square_def embed_as_map)

lemma nd_kron_scalar_left:
  assumes "shape a = []" "shape b = [rb, cb]"
  shows "nd_kron a b = nd_kron (a\<lparr>shape := [1, 1]\<rparr>) b"
  by (simp add: nd_kron_def assms pad_shape_def Let_def numeral_2_eq_2)

lemma embed_data_only: "data b' = data b \<Longrightarrow> embed qa qb b' = embed qa qb b"
  unfolding embed_def by (simp only:)

lemma merge_base:
  assumes base: "symbolic A = None" "priv_matrix A = Tensor a"
    and sa: "square (2 ^ len A) a"
    and mb: "matrix_value B = Inr v" "as_array v = Inr b"
    and sb: "square (2 ^ len B) b \<or> (len B = 0 \<and> shape b = [] \<and> length (data b) = 1)"
    and dq: "distinct (target_qubits A)" "distinct (target_qubits B)"
      "set (target_qubits B) \<subseteq> set (target_qubits A)"
  shows "merge A B =
     Inr \<lparr>target_qubits = target_qubits A,
          priv_matrix = Tensor (mat_add a (embed (target_qubits A) (target_qubits B) b)),
          priv_gate = None, hamiltonian = None, symbolic = None\<rparr>"
proof -
  define qa where "qa = target_qubits A"
  define qb where "qb = target_qubits B"
  define k where "k = length qa"
  define m where "m = length qb"
  define b' where "b' = (if shape b = [] then b\<lparr>shape := [1, 1]\<rparr> else b)"
  define P where "P = nd_kron b' (eye (2 ^ (k - m)))"
  define o2 where "o2 = merge_order qa qb m @ map (\<lambda>x. x + k) (merge_order qa qb m)"
  have dq': "distinct qa" "distinct qb" "set qb \<subseteq> set qa"
    using dq by (simp_all add: qa_def qb_def)
  have lens: "len A = k" "len B = m"
    by (simp_all add: len_def k_def m_def qa_def qb_def)
  have mk: "m \<le> k" using count_outside [OF dq'] by (simp add: k_def m_def)
  have pw: "(2::nat) ^ m * 2 ^ (k - m) = 2 ^ k"
    using mk by (simp flip: power_add)
  have shb: "shape b' = [2 ^ m, 2 ^ m]"
    using sb by (auto simp: square_def lens b'_def)
  have db: "data b' = data b" by (simp add: b'_def)
  have kr: "nd_kron b (eye (2 ^ (k - m))) = P"
  proof (cases "shape b = []")
    case True
    have "shape (eye (2 ^ (k - m))) = [2 ^ (k - m), 2 ^ (k - m)]" by (simp add: eye_def)
    from nd_kron_scalar_left [OF True this] True show ?thesis by (simp add: P_def b'_def)
  next
    case False
    then show ?thesis by (simp add: P_def b'_def)
  qed
  have s1: "np_kron v (Tensor (eye (2 ^ (k - m)))) = Inr P"
    by (simp add: np_kron_def mb(2) kr)
  have lenP: "length (data P) = 2 ^ k * 2 ^ k"
    using kron_eye_shape(2) [OF shb, of "2 ^ (k - m)"] by (simp add: P_def pw)
  have s2: "np_reshape P (replicate (2 * k) 2) = Inr \<lparr>shape = replicate (2 * k) 2, data = data P\<rparr>"
    by (simp add: np_reshape_def lenP mult_2 power_add)
  have "np_transpose \<lparr>shape = replicate (2 * k) 2, data = data P\<rparr> o2
      = Inr \<lparr>shape = replicate (2 * k) 2, data = data (embed qa qb b')\<rparr>"
    unfolding P_def o2_def k_def m_def using dq' shb [unfolded m_def]
    by (rule transposed_embed)
  then have s3: "np_transpose \<lparr>shape = replicate (2 * k) 2, data = data P\<rparr> o2
      = Inr \<lparr>shape = replicate (2 * k) 2, data = data (embed qa qb b)\<rparr>"
    by (simp only: embed_data_only [OF db])
  have sq: "square (2 ^ k) (embed qa qb b)"
    unfolding k_def by (rule embed_square)
  have s4: "np_reshape \<lparr>shape = replicate (2 * k) 2, data = data (embed qa qb b)\<rparr>
        (replicate 2 (2 ^ k)) = Inr (embed qa qb b)"
    using sq by (simp add: np_reshape_def square_def numeral_2_eq_2)
  have s5: "matrix_value A = Inr (Tensor a)"
    by (simp add: matrix_value_def matrix_def base)
  have s6': "nd_add a (embed qa qb b) = Inr (mat_add a (embed qa qb b))"
    using sa sq by (intro nd_add_same_shape [of _ "[2 ^ k, 2 ^ k]"]) (simp_all add: square_def lens)
  from s6' have s6: "np_add (Tensor a) (Tensor (embed qa qb b))
      = Inr (Tensor (mat_add a (embed qa qb b)))"
    by simp
  have s7: "construct_like A (Tensor (mat_add a (embed qa qb b))) qa
      = Inr \<lparr>target_qubits = qa, priv_matrix = Tensor (mat_add a (embed qa qb b)),
             priv_gate = None, hamiltonian = None, symbolic = None\<rparr>"
    by (simp add: construct_like_def base HamiltonianTerm_def)
  have "merge A B
      = Inr \<lparr>target_qubits = qa, priv_matrix = Tensor (mat_add a (embed qa qb b)),
             priv_gate = None, hamiltonian = None, symbolic = None\<rparr>"
    unfolding merge_def Let_def mb(1) lens length_merge_order
    unfolding qa_def [symmetric] qb_def [symmetric]
    unfolding k_def [symmetric] o2_def [symmetric]
    using mk by (simp add: s1 s2 s3 s4 s5 s6' s7 del: replicate.simps)
  then show ?thesis by (simp add: qa_def qb_def)
qed


subsection \<open>The embedding on aligned qubits\<close>

text \<open>
  When the qubits of \<open>A\<close> are those of \<open>B\<close> followed by others, the embedding is
  \<open>kron(B, I)\<close>.
\<close>

lemma index_of_upt: "t < n \<Longrightarrow> index_of [0..<n] t = t"
proof -
  assume "t < n"
  then have "index_of [0..<n] ([0..<n] ! t) = t"
    by (intro index_of_nth) simp_all
  with \<open>t < n\<close> show ?thesis by simp
qed

lemma np_transpose_identity:
  assumes "length d = prod_list s"
  shows "np_transpose \<lparr>shape = s, data = d\<rparr> [0..<length s] = Inr \<lparr>shape = s, data = d\<rparr>"
proof -
  have sh: "map (\<lambda>t. s ! t) [0..<length s] = s" by (rule map_nth)
  have "map (\<lambda>f. d ! ravel s (map (\<lambda>t. unravel s f ! index_of [0..<length s] t)
                                  [0..<length s])) [0..<prod_list s] = d"
  proof (rule nth_equalityI)
    show "length (map (\<lambda>f. d ! ravel s (map (\<lambda>t. unravel s f ! index_of [0..<length s] t)
                                  [0..<length s])) [0..<prod_list s]) = length d"
      using assms by simp
  next
    fix f
    assume "f < length (map (\<lambda>f. d ! ravel s (map (\<lambda>t. unravel s f
                ! index_of [0..<length s] t) [0..<length s])) [0..<prod_list s])"
    then have f: "f < prod_list s" by simp
    have "map (\<lambda>t. unravel s f ! index_of [0..<length s] t) [0..<length s]
        = map (\<lambda>t. unravel s f ! t) [0..<length s]"
      by (intro map_cong refl) (simp add: index_of_upt)
    also have "\<dots> = unravel s f"
      using map_nth [of "unravel s f"] by simp
    finally show "map (\<lambda>f. d ! ravel s (map (\<lambda>t. unravel s f ! index_of [0..<length s] t)
                                  [0..<length s])) [0..<prod_list s] ! f = d ! f"
      using f by (simp add: ravel_unravel)
  qed
  moreover have "np_transpose \<lparr>shape = s, data = d\<rparr> [0..<length s]
      = Inr \<lparr>shape = s,
             data = map (\<lambda>f. d ! ravel s (map (\<lambda>t. unravel s f ! index_of [0..<length s] t)
                                             [0..<length s])) [0..<prod_list s]\<rparr>"
    using sh by (intro np_transpose_permutation) (simp_all add: list_all_iff)
  ultimately show ?thesis by (simp only:)
qed

lemma merge_order_aligned:
  assumes "distinct (qb @ ex)"
  shows "merge_order (qb @ ex) qb (length qb) = [0..<length qb + length ex]"
proof (rule nth_equalityI)
  show "length (merge_order (qb @ ex) qb (length qb)) = length [0..<length qb + length ex]"
    by simp
next
  fix u assume "u < length (merge_order (qb @ ex) qb (length qb))"
  then have u: "u < length (qb @ ex)" by simp
  show "merge_order (qb @ ex) qb (length qb) ! u = [0..<length qb + length ex] ! u"
  proof (cases "u < length qb")
    case True
    then have "(qb @ ex) ! u = qb ! u" "qb ! u \<in> set qb" by (simp_all add: nth_append)
    then have "merge_order (qb @ ex) qb (length qb) ! u = index_of qb (qb ! u)"
      using u merge_order_nth_in [of u "qb @ ex" qb] by simp
    also have "\<dots> = u" using assms True by (intro index_of_nth) simp_all
    finally show ?thesis using u by simp
  next
    case False
    then have e: "(qb @ ex) ! u = ex ! (u - length qb)" "u - length qb < length ex"
      using u by (simp_all add: nth_append)
    then have out: "(qb @ ex) ! u \<notin> set qb"
      using assms by (metis IntI distinct_append empty_iff nth_mem)
    have "filter (\<lambda>q. q \<notin> set qb) (take u (qb @ ex)) = take (u - length qb) ex"
    proof -
      have "filter (\<lambda>q. q \<notin> set qb) (take (u - length qb) ex) = take (u - length qb) ex"
        using assms by (intro filter_True) (auto dest: in_set_takeD)
      then show ?thesis using False by simp
    qed
    then have "merge_order (qb @ ex) qb (length qb) ! u = length qb + (u - length qb)"
      using u out e(2) merge_order_nth_out [of u "qb @ ex" qb "length qb"] by simp
    then show ?thesis using False u by simp
  qed
qed

lemma doubled_upt: "[0..<k] @ map (\<lambda>x. x + k) [0..<k] = [0..<2 * k]"
proof -
  have "map (\<lambda>x. x + k) [0..<k] = [k..<k + k]"
    by (rule map_add_upt)
  moreover have "[0..<k + k] = [0..<k] @ [k..<k + k]"
    by (rule upt_add_eq_append) simp
  ultimately show ?thesis by (simp only: mult_2)
qed

lemma embed_aligned:
  assumes "distinct (qb @ ex)" "shape b = [2 ^ length qb, 2 ^ length qb]"
  shows "embed (qb @ ex) qb b = nd_kron b (eye (2 ^ length ex))"
proof -
  define k where "k = length (qb @ ex)"
  define P where "P = nd_kron b (eye (2 ^ length ex))"
  have dq: "distinct (qb @ ex)" "distinct qb" "set qb \<subseteq> set (qb @ ex)"
    using assms(1) by simp_all
  have kd: "k - length qb = length ex" by (simp add: k_def)
  have mo: "merge_order (qb @ ex) qb (length qb) = [0..<k]"
    using merge_order_aligned [OF assms(1)] by (simp add: k_def)
  have shP: "shape P = [2 ^ k, 2 ^ k]" "length (data P) = 2 ^ k * 2 ^ k"
    using kron_eye_shape [OF assms(2), of "2 ^ length ex"]
    by (simp_all add: power_add P_def k_def)
  have "np_transpose \<lparr>shape = replicate (2 * k) 2, data = data P\<rparr>
          ([0..<k] @ map (\<lambda>x. x + k) [0..<k])
      = Inr \<lparr>shape = replicate (2 * k) 2, data = data (embed (qb @ ex) qb b)\<rparr>"
    using transposed_embed [OF dq assms(2)]
    unfolding k_def [symmetric] kd mo P_def [symmetric] .
  then have t1: "np_transpose \<lparr>shape = replicate (2 * k) 2, data = data P\<rparr>
          [0..<length (replicate (2 * k) (2::nat))]
      = Inr \<lparr>shape = replicate (2 * k) 2, data = data (embed (qb @ ex) qb b)\<rparr>"
    by (simp only: doubled_upt length_replicate)
  have t2: "np_transpose \<lparr>shape = replicate (2 * k) 2, data = data P\<rparr>
          [0..<length (replicate (2 * k) (2::nat))]
      = Inr \<lparr>shape = replicate (2 * k) 2, data = data P\<rparr>"
    by (rule np_transpose_identity) (simp add: shP mult_2 power_add)
  from t1 t2 have "data (embed (qb @ ex) qb b) = data P" by simp
  moreover have "shape (embed (qb @ ex) qb b) = shape P"
    by (simp add: shP embed_as_map k_def)
  ultimately show ?thesis by (simp add: P_def)
qed


text \<open>
  Receivers of the base class. Let \<open>A\<close> be a term of the base class whose matrix is a
  square array over its qubits, and \<open>B\<close> a term whose matrix is a square array over its
  qubits (or a number, for a term without qubits), the qubits of each distinct and
  those of \<open>B\<close> among those of \<open>A\<close>. Then \<^verbatim>\<open>A.merge(B)\<close> returns a new term of the base
  class over the qubits of \<open>A\<close> whose matrix is the matrix of \<open>A\<close> plus the embedding of
  the matrix of \<open>B\<close>. For \<open>A\<close> over qubits 0 and 1 with \<open>kron(Z, Z)\<close> and \<open>B\<close> over qubit
  0 with \<open>X\<close> the result is \<open>kron(Z, Z) + kron(X, I)\<close>.
\<close>

theorem merge_adds_embedding:
  assumes "symbolic A = None" "priv_matrix A = Tensor a" "square (2 ^ len A) a"
    and "matrix_value B = Inr v" "as_array v = Inr b"
    and "square (2 ^ len B) b \<or> (len B = 0 \<and> shape b = [] \<and> length (data b) = 1)"
    and "distinct (target_qubits A)" "distinct (target_qubits B)"
      "set (target_qubits B) \<subseteq> set (target_qubits A)"
  shows "merge A B =
     Inr \<lparr>target_qubits = target_qubits A,
          priv_matrix = Tensor (mat_add a (embed (target_qubits A) (target_qubits B) b)),
          priv_gate = None, hamiltonian = None, symbolic = None\<rparr>"
  using assms by (rule merge_base)

theorem merge_adds_embedding_witness:
  "symbolic term_ZZ01 = None
   \<and> priv_matrix term_ZZ01 = Tensor (nd_kron pauli_Z pauli_Z)
   \<and> square (2 ^ len term_ZZ01) (nd_kron pauli_Z pauli_Z)
   \<and> matrix_value term_X0 = Inr (Tensor pauli_X)
   \<and> square (2 ^ len term_X0) pauli_X
   \<and> distinct (target_qubits term_ZZ01) \<and> distinct (target_qubits term_X0)
   \<and> set (target_qubits term_X0) \<subseteq> set (target_qubits term_ZZ01)
   \<and> merge term_ZZ01 term_X0 =
       Inr \<lparr>target_qubits = [0, 1],
            priv_matrix = Tensor (mat_add (nd_kron pauli_Z pauli_Z) (nd_kron pauli_X (eye 2))),
            priv_gate = None, hamiltonian = None, symbolic = None\<rparr>
   \<and> mat_add (nd_kron pauli_Z pauli_Z) (nd_kron pauli_X (eye 2))
       = \<lparr>shape = [4, 4],
          data = [1, 0, 1, 0,  0, - 1, 0, 1,  1, 0, - 1, 0,  0, 1, 0, 1]\<rparr>"
proof -
  have h1: "symbolic term_ZZ01 = None" by (simp add: term_ZZ01_def)
  have h2: "priv_matrix term_ZZ01 = Tensor (nd_kron pauli_Z pauli_Z)"
    by (simp add: term_ZZ01_def)
  have h3: "square (2 ^ len term_ZZ01) (nd_kron pauli_Z pauli_Z)" by code_simp
  have h4: "matrix_value term_X0 = Inr (Tensor pauli_X)"
    by (simp add: matrix_value_def matrix_def term_X0_def)
  have h5: "as_array (Tensor pauli_X) = Inr pauli_X" by simp
  have h6: "square (2 ^ len term_X0) pauli_X" by code_simp
  have h7: "distinct (target_qubits term_ZZ01)" "distinct (target_qubits term_X0)"
    "set (target_qubits term_X0) \<subseteq> set (target_qubits term_ZZ01)"
    by (simp_all add: term_ZZ01_def term_X0_def)
  have e: "embed [0, 1] [0] pauli_X = nd_kron pauli_X (eye 2)"
    by code_simp
  have tq: "target_qubits term_ZZ01 = [0, 1]" "target_qubits term_X0 = [0]"
    by (simp_all add: term_ZZ01_def term_X0_def)
  from merge_adds_embedding [OF h1 h2 h3 h4 h5 disjI1 [OF h6] h7]
  have m: "merge term_ZZ01 term_X0 =
       Inr \<lparr>target_qubits = [0, 1],
            priv_matrix = Tensor (mat_add (nd_kron pauli_Z pauli_Z) (nd_kron pauli_X (eye 2))),
            priv_gate = None, hamiltonian = None, symbolic = None\<rparr>"
    by (simp only: tq e)
  have d: "mat_add (nd_kron pauli_Z pauli_Z) (nd_kron pauli_X (eye 2))
       = \<lparr>shape = [4, 4],
          data = [1, 0, 1, 0,  0, - 1, 0, 1,  1, 0, - 1, 0,  0, 1, 0, 1]\<rparr>"
    by code_simp
  from h1 h2 h3 h4 h6 h7 m d show ?thesis by blast
qed

lemma embed_second_qubit:
  "embed [0, 1] [1] pauli_X = nd_kron (eye 2) pauli_X"
  by code_simp

lemma embed_swapped_order:
  "embed [0, 1] [1, 0] (nd_kron pauli_X pauli_Z) = nd_kron pauli_Z pauli_X"
  by code_simp


section \<open>Receivers and scalar multiples\<close>

text \<open>
  With a symbolic term over at least one qubit as receiver, \<^verbatim>\<open>merge\<close> never returns:
  \<^verbatim>\<open>self.__class__\<close> is then \<^verbatim>\<open>SymbolicTerm\<close>, whose constructor takes the summed
  matrix for a coefficient.
\<close>

lemma merge_symbolic_receiver:
  assumes "symbolic A = Some s" "target_qubits A \<noteq> []"
  shows "\<exists>e. merge A B = Inl e"
proof (cases "merge A B")
  case (Inl e)
  then show ?thesis by blast
next
  case (Inr r)
  then obtain m q where "construct_like A m q = Inr r" "q = target_qubits A"
    unfolding merge_def Let_def
    by (auto dest!: and_then_InrD split: if_splits)
  with assms show ?thesis by (simp add: construct_like_def)
qed

text \<open>
  Claim C1, where the code departs from it. The receiver is the symbolic term
  \<open>X(0) * X(1)\<close> with coefficient 1, whose matrix is \<open>kron(X, X)\<close>, and the argument is
  the term \<open>X\<close> over qubit 0, whose qubits are among those of the receiver. \<^verbatim>\<open>merge\<close>
  raises a type error instead of returning the term with matrix
  \<open>kron(X, X) + kron(X, I)\<close>, and so does \<^verbatim>\<open>to_term\<close> of the group of the two; the
  receiver of the base class with the same matrix merges as the claim says.
\<close>

theorem merge_symbolic_receiver_raises:
  "from_factors 1 (Product [Atom (Sym (sym_X 0)), Atom (Sym (sym_X 1))]) None
     = Inr term_XX01_symbolic
   \<and> target_qubits term_XX01_symbolic = [0, 1]
   \<and> matrix_value term_XX01_symbolic = Inr (Tensor (nd_kron pauli_X pauli_X))
   \<and> merge term_XX01_symbolic term_X0 = Inl TypeError
   \<and> to_term Map.empty (append (TermGroup term_XX01_symbolic) term_X0) = Inl TypeError
   \<and> merge term_XX01 term_X0
       = Inr \<lparr>target_qubits = [0, 1],
              priv_matrix = Tensor (mat_add (nd_kron pauli_X pauli_X) (nd_kron pauli_X (eye 2))),
              priv_gate = None, hamiltonian = None, symbolic = None\<rparr>"
  by code_simp

text \<open>
  Scalar multiplication scales the matrix of a term of the base class, and the matrix
  of a symbolic term that has not stored its matrix yet; a stored matrix is handed on
  as it is.
\<close>

lemma mul_base:
  assumes "symbolic t = None" "priv_matrix t = Tensor a"
  shows "mul t x = Inr \<lparr>target_qubits = target_qubits t,
                         priv_matrix = Tensor (a\<lparr>data := map (\<lambda>e. x * e) (data a)\<rparr>),
                         priv_gate = None, hamiltonian = None, symbolic = None\<rparr>"
  using assms by (simp add: mul_def HamiltonianTerm_def)

lemma prod_list_pad_shape [simp]: "prod_list (pad_shape n s) = prod_list s"
  by (simp add: pad_shape_def)

lemma quotient_index_bound:
  fixes sa sb idx :: "nat list"
  shows "length sa = length sb \<Longrightarrow> list_all2 (<) idx (map2 (*) sa sb) \<Longrightarrow>
   list_all2 (<) (map2 (div) idx sb) sa"
proof (induction sa sb arbitrary: idx rule: list_induct2)
  case Nil
  then show ?case by simp
next
  case (Cons a sa b sb)
  then obtain i js where idx: "idx = i # js" "i < a * b" "list_all2 (<) js (map2 (*) sa sb)"
    by (cases idx) auto
  have "i div b < a" using idx(2) by (rule less_mult_imp_div_less)
  with Cons.IH [OF idx(3)] show ?case by (simp add: idx(1))
qed

lemma nd_kron_scale_left:
  assumes "length (data a) = prod_list (shape a)"
  shows "nd_kron (a\<lparr>data := map (\<lambda>e. x * e) (data a)\<rparr>) b
       = (nd_kron a b)\<lparr>data := map (\<lambda>e. x * e) (data (nd_kron a b))\<rparr>"
proof -
  define nd where "nd = max (length (shape a)) (length (shape b))"
  define sa where "sa = pad_shape nd (shape a)"
  define sb where "sb = pad_shape nd (shape b)"
  define rs where "rs = map2 (*) sa sb"
  have len: "length sa = length sb"
    by (simp add: sa_def sb_def pad_shape_def nd_def)
  have "map (\<lambda>f. map (\<lambda>e. x * e) (data a) ! ravel sa (map2 (div) (unravel rs f) sb)
                 * data b ! ravel sb (map2 (mod) (unravel rs f) sb)) [0..<prod_list rs]
      = map (\<lambda>f. x * (data a ! ravel sa (map2 (div) (unravel rs f) sb)
                 * data b ! ravel sb (map2 (mod) (unravel rs f) sb))) [0..<prod_list rs]"
  proof (rule map_cong [OF refl])
    fix f assume "f \<in> set [0..<prod_list rs]"
    then have "f < prod_list rs" by simp
    then have "list_all2 (<) (unravel rs f) (map2 (*) sa sb)"
      unfolding rs_def by (rule unravel_bound)
    then have "list_all2 (<) (map2 (div) (unravel rs f) sb) sa"
      using len by (intro quotient_index_bound)
    then have "ravel sa (map2 (div) (unravel rs f) sb) < prod_list sa"
      by (rule ravel_bound)
    then have "ravel sa (map2 (div) (unravel rs f) sb) < length (data a)"
      using assms by (simp add: sa_def)
    then show "map (\<lambda>e. x * e) (data a) ! ravel sa (map2 (div) (unravel rs f) sb)
                 * data b ! ravel sb (map2 (mod) (unravel rs f) sb)
        = x * (data a ! ravel sa (map2 (div) (unravel rs f) sb)
                 * data b ! ravel sb (map2 (mod) (unravel rs f) sb))"
      by simp
  qed
  then show ?thesis
    by (simp add: nd_kron_def Let_def comp_def
        flip: nd_def sa_def sb_def rs_def)
qed

lemma nd_kron_well_formed: "length (data (nd_kron a b)) = prod_list (shape (nd_kron a b))"
  by (simp add: nd_kron_def Let_def)

lemma foldl_kron_scale:
  assumes "length (data a) = prod_list (shape a)"
  shows "foldl nd_kron (a\<lparr>data := map (\<lambda>e. x * e) (data a)\<rparr>) ps
       = (foldl nd_kron a ps)\<lparr>data := map (\<lambda>e. x * e) (data (foldl nd_kron a ps))\<rparr>"
  using assms
proof (induction ps arbitrary: a)
  case Nil
  then show ?case by simp
next
  case (Cons p ps)
  have "foldl nd_kron (nd_kron (a\<lparr>data := map (\<lambda>e. x * e) (data a)\<rparr>) p) ps
      = foldl nd_kron ((nd_kron a p)\<lparr>data := map (\<lambda>e. x * e) (data (nd_kron a p))\<rparr>) ps"
    by (simp only: nd_kron_scale_left [OF Cons.prems])
  also have "\<dots> = (foldl nd_kron (nd_kron a p) ps)
      \<lparr>data := map (\<lambda>e. x * e) (data (foldl nd_kron (nd_kron a p) ps))\<rparr>"
    by (rule Cons.IH) (rule nd_kron_well_formed)
  finally show ?case by simp
qed

lemma kron_chain_scale:
  "kron_chain (c * x) ps
     = (kron_chain c ps)\<lparr>data := map (\<lambda>e. x * e) (data (kron_chain c ps))\<rparr>"
proof -
  have "foldl nd_kron (\<lparr>shape = [], data = [c]\<rparr>\<lparr>data := map (\<lambda>e. x * e)
           (data \<lparr>shape = [], data = [c]\<rparr>)\<rparr>) ps
      = (foldl nd_kron \<lparr>shape = [], data = [c]\<rparr> ps)
          \<lparr>data := map (\<lambda>e. x * e) (data (foldl nd_kron \<lparr>shape = [], data = [c]\<rparr> ps))\<rparr>"
    by (rule foldl_kron_scale) simp
  then show ?thesis by (simp add: kron_chain_def mult.commute)
qed

lemma mul_fresh_symbolic:
  assumes "\<forall>(q, ms)\<in>set mm. ms \<noteq> [] \<and> (\<forall>m\<in>set ms. shape m = [2, 2])"
  shows "\<exists>t' v v' a. mul (SymbolicTerm c fs mm) x = Inr t'
           \<and> target_qubits t' = target_qubits (SymbolicTerm c fs mm)
           \<and> matrix_value (SymbolicTerm c fs mm) = Inr v \<and> as_array v = Inr a
           \<and> matrix_value t' = Inr v'
           \<and> as_array v' = Inr (a\<lparr>data := map (\<lambda>e. x * e) (data a)\<rparr>)"
proof -
  let ?ps = "map (\<lambda>q. ordered_product (the (map_of mm q))) (sort (map fst mm))"
  have m: "mul (SymbolicTerm c fs mm) x = Inr (SymbolicTerm (c * x) fs mm)"
    by (simp add: mul_def SymbolicTerm_def)
  from symbolic_matrix_chain [OF assms, of c fs]
  obtain v where v: "matrix_value (SymbolicTerm c fs mm) = Inr v"
    "as_array v = Inr (kron_chain c ?ps)"
    by (auto simp: matrix_value_def)
  from symbolic_matrix_chain [OF assms, of "c * x" fs]
  obtain v' where v': "matrix_value (SymbolicTerm (c * x) fs mm) = Inr v'"
    "as_array v' = Inr (kron_chain (c * x) ?ps)"
    by (auto simp: matrix_value_def)
  have "as_array v'
      = Inr ((kron_chain c ?ps)\<lparr>data := map (\<lambda>e. x * e) (data (kron_chain c ?ps))\<rparr>)"
    using v'(2) by (simp only: kron_chain_scale)
  moreover have "target_qubits (SymbolicTerm (c * x) fs mm)
      = target_qubits (SymbolicTerm c fs mm)"
    by (simp add: SymbolicTerm_def)
  ultimately show ?thesis using m v v'(1) by blast
qed

lemma mul_cached_symbolic:
  assumes "symbolic t = Some s" "priv_matrix t \<noteq> PyNone"
  shows "\<exists>t'. mul t x = Inr t' \<and> matrix_value t' = Inr (priv_matrix t)
           \<and> matrix_value t = Inr (priv_matrix t)"
  using assms by (simp add: mul_def SymbolicTerm_def matrix_value_def matrix_def)


end
